theory Spec2Isabelle
  imports Complex_Main "HOL-Library.AList"
begin

section \<open>Data model (src/types.ts and the object literals of src/App.tsx)\<close>

datatype CelestialType = STAR | NEBULA | BLACK_HOLE | GALAXY | ANOMALY

text \<open>
  JavaScript numbers are IEEE doubles, which are real numbers: coordinates and resources
  are reals here. The rewards and the indices of the fallback name are small integers,
  where doubles are exact. The distance of two bodies is computed as the code does: the
  coordinate differences are rounded to doubles, and \<open>Math.hypot\<close> is the world's.
\<close>

record Coordinates =
  coord_x :: real
  coord_y :: real

record CelestialBody =
  body_id :: string
  body_name :: string
  body_type :: CelestialType
  description :: string
  distanceLightYears :: real
  spectralClass :: "string option"
  temperatureK :: "real option"
  coordinates :: Coordinates
  color :: string
  discoveryDate :: nat
  analyzed :: bool

record GameResources =
  starlight :: real
  data :: real
  focus :: real

record LogEntry =
  log_id :: string
  timestamp :: nat
  message :: string
  log_type :: string

text \<open>
  src/App.tsx imports the interface \<open>Constellation\<close> from the types module, whose copy
  under src/ does not declare it; the fields are those of the object literal built in
  \<open>checkForConstellations\<close>. The type of a log entry is a string: the check logs with
  \<open>'constellation'\<close>, which the declared union does not list.
\<close>

record Constellation =
  cid :: string
  cname :: string
  starIds :: "string list"
  discoveredAt :: nat

section \<open>The outside world: the generative service, \<open>uuidv4\<close>, \<open>Date.now\<close>, \<open>Math.random\<close>\<close>

text \<open>
  What \<open>ai.models.generateContent\<close> followed by \<open>JSON.parse(response.text || "{}")\<close> and
  the read of \<open>.name\<close> can do: the request rejects; the text does not parse (or parses to
  \<open>null\<close>, whose property access throws); or an object is parsed, whose \<open>name\<close> is a
  string or is missing.
\<close>

datatype ai_outcome = Rejected | ParseError | Parsed "string option"

text \<open>
  The answers of the outside world are streams indexed by the number of calls made so far;
  the counters are part of the state, so that every call consumes one answer.
  \<open>Math.hypot\<close> is the engine's: the language fixes no accuracy for it (its value is
  implementation-approximated), so it is a function of the world, and nothing is assumed
  of it unless a theorem says so.
\<close>

record env =
  generateContent :: "nat \<Rightarrow> ai_outcome"
  math_random :: "nat \<Rightarrow> real"
  uuid_stream :: "nat \<Rightarrow> string"
  clock :: "nat \<Rightarrow> nat"
  math_hypot :: "real \<Rightarrow> real \<Rightarrow> real"

record AppState =
  resources :: GameResources
  stars :: "CelestialBody list"
  constellations :: "Constellation list"
  logs :: "LogEntry list"
  ai_calls :: nat
  random_calls :: nat
  uuid_calls :: nat
  now_calls :: nat

definition uuidv4 :: "env \<Rightarrow> AppState \<Rightarrow> string \<times> AppState" where
  "uuidv4 e st = (uuid_stream e (uuid_calls st), st\<lparr>uuid_calls := Suc (uuid_calls st)\<rparr>)"

definition Date_now :: "env \<Rightarrow> AppState \<Rightarrow> nat \<times> AppState" where
  "Date_now e st = (clock e (now_calls st), st\<lparr>now_calls := Suc (now_calls st)\<rparr>)"

definition Math_random :: "env \<Rightarrow> AppState \<Rightarrow> real \<times> AppState" where
  "Math_random e st = (math_random e (random_calls st), st\<lparr>random_calls := Suc (random_calls st)\<rparr>)"

section \<open>Template literals: decimal rendering of a natural number\<close>

definition digit_char :: "nat \<Rightarrow> char" where
  "digit_char d = char_of (48 + d)"

function show_nat :: "nat \<Rightarrow> string" where
  "show_nat n = (if n < 10 then [digit_char n] else show_nat (n div 10) @ [digit_char (n mod 10)])"
  by pat_completeness auto
termination
  by (relation "measure (\<lambda>n. n)") auto

declare show_nat.simps [simp del]

section \<open>generateConstellationName (src/unnamed/part_000, lines 90--113)\<close>

definition prefixes :: "string list" where
  "prefixes = [''Alpha'', ''Beta'', ''Gamma'', ''Delta'', ''The Great'', ''The Lesser'',
               ''Northern'', ''Southern'']"

definition roots :: "string list" where
  "roots = [''Hydra'', ''Lion'', ''Crown'', ''Arrow'', ''Cross'', ''Bear'', ''Serpent'', ''Eagle'']"

text \<open>\<open>Math.floor(Math.random() * n)\<close>, for a draw \<open>r\<close>.\<close>

definition floor_scaled :: "real \<Rightarrow> nat \<Rightarrow> nat" where
  "floor_scaled r n = nat \<lfloor>r * real n\<rfloor>"

text \<open>The \<open>catch\<close> block: two draws, one word from each pool, a space between.\<close>

definition fallback_name :: "env \<Rightarrow> AppState \<Rightarrow> string \<times> AppState" where
  "fallback_name e st =
     (let (r1, st1) = Math_random e st;
          (r2, st2) = Math_random e st1
      in (prefixes ! floor_scaled r1 (length prefixes) @ '' '' @
          roots ! floor_scaled r2 (length roots), st2))"

text \<open>The template literal of the \<open>try\<close> block, with its one draw.\<close>

definition cluster_name :: "env \<Rightarrow> AppState \<Rightarrow> string \<times> AppState" where
  "cluster_name e st =
     (let (r, st1) = Math_random e st
      in (''Cluster '' @ show_nat (floor_scaled r 9999), st1))"

text \<open>
  \<open>json.name || `Cluster ...`\<close>: a missing name and the empty string are falsy, and
  the right-hand side is only evaluated then. The star count of the source goes into the
  prompt only.
\<close>

definition generateConstellationName :: "env \<Rightarrow> nat \<Rightarrow> AppState \<Rightarrow> string \<times> AppState" where
  "generateConstellationName e starCount st =
     (let response = generateContent e (ai_calls st);
          st0 = st\<lparr>ai_calls := Suc (ai_calls st)\<rparr>
      in case response of
           Parsed None \<Rightarrow> cluster_name e st0
         | Parsed (Some name) \<Rightarrow> if name = [] then cluster_name e st0 else (name, st0)
         | Rejected \<Rightarrow> fallback_name e st0
         | ParseError \<Rightarrow> fallback_name e st0)"

section \<open>The adjacency graph (src/App.tsx, lines 113--128)\<close>

text \<open>
  \<open>adj\<close> is a \<open>Map<string, string[]>\<close>. It is only ever read by key, so it is an
  association list read with \<open>map_of\<close>; \<open>set\<close> replaces the value of a key in place.
\<close>

type_synonym adjacency = "(string \<times> string list) list"

definition adj_set :: "string \<Rightarrow> string list \<Rightarrow> adjacency \<Rightarrow> adjacency" where
  "adj_set k v adj = AList.update k v adj"

text \<open>\<open>adj.get(k) || []\<close>\<close>

definition adj_get :: "adjacency \<Rightarrow> string \<Rightarrow> string list" where
  "adj_get adj k = (case map_of adj k of None \<Rightarrow> [] | Some ns \<Rightarrow> ns)"

text \<open>\<open>adj.get(a)?.push(b)\<close>: nothing happens on a missing key.\<close>

definition adj_push :: "string \<Rightarrow> string \<Rightarrow> adjacency \<Rightarrow> adjacency" where
  "adj_push a b adj =
     (case map_of adj a of None \<Rightarrow> adj | Some ns \<Rightarrow> adj_set a (ns @ [b]) adj)"

definition MAX_DIST :: real where
  "MAX_DIST = 180"

text \<open>
  The difference of two doubles is the exact difference rounded to the nearest double,
  ties going to the even significand (\<open>Number::subtract\<close>, IEEE 754 binary64). A double
  has 53 significant bits, so the doubles around \<open>x \<noteq> 0\<close> are the multiples of
  \<open>2\<close> to the power \<open>\<lfloor>log\<^sub>2 \<bar>x\<bar>\<rfloor> - 52\<close>. The exponent is not bounded here: coordinates
  are drawn between 0 and 1000 (lines 318 and 803), their differences do not overflow,
  and the difference of two doubles is exact whenever it is too small to be normal.
\<close>

definition round_even :: "real \<Rightarrow> int" where
  "round_even y =
     (let f = \<lfloor>y\<rfloor> in
      if y - of_int f < 1 / 2 then f
      else if 1 / 2 < y - of_int f then f + 1
      else if even f then f else f + 1)"

definition round_double :: "real \<Rightarrow> real" where
  "round_double x =
     (if x = 0 then 0
      else let u = 2 powr of_int (\<lfloor>log 2 \<bar>x\<bar>\<rfloor> - 52)
           in u * of_int (round_even (x / u)))"

definition double_sub :: "real \<Rightarrow> real \<Rightarrow> real" where
  "double_sub a b = round_double (a - b)"

text \<open>\<open>dist\<close>, line 122, with the world's \<open>Math.hypot\<close>.\<close>

definition dist_bodies :: "env \<Rightarrow> CelestialBody \<Rightarrow> CelestialBody \<Rightarrow> real" where
  "dist_bodies e s1 s2 =
     math_hypot e (double_sub (coord_x (coordinates s1)) (coord_x (coordinates s2)))
                  (double_sub (coord_y (coordinates s1)) (coord_y (coordinates s2)))"

text \<open>The inner loop over \<open>j\<close>, for a fixed \<open>s1 = currentStars[i]\<close> and the bodies after it.\<close>

fun link_later ::
  "env \<Rightarrow> CelestialBody \<Rightarrow> CelestialBody list \<Rightarrow> adjacency \<Rightarrow> adjacency" where
  "link_later e s1 [] adj = adj"
| "link_later e s1 (s2 # rest) adj =
     link_later e s1 rest
       (if dist_bodies e s1 s2 < MAX_DIST
        then adj_push (body_id s2) (body_id s1) (adj_push (body_id s1) (body_id s2) adj)
        else adj)"

text \<open>The outer loop over \<open>i\<close>.\<close>

fun link_all :: "env \<Rightarrow> CelestialBody list \<Rightarrow> adjacency \<Rightarrow> adjacency" where
  "link_all e [] adj = adj"
| "link_all e (s1 # rest) adj = link_all e rest (link_later e s1 rest adj)"

definition build_adjacency :: "env \<Rightarrow> CelestialBody list \<Rightarrow> adjacency" where
  "build_adjacency e currentStars =
     link_all e currentStars (foldl (\<lambda>adj s. adj_set (body_id s) [] adj) [] currentStars)"

section \<open>Connected components (src/App.tsx, lines 130--155)\<close>

text \<open>
  The \<open>for\<close> loop over the neighbours of the popped id. The stack is kept with its top
  at the head of the list, so \<open>push\<close> is \<open>#\<close> and \<open>pop\<close> takes the head.
\<close>

fun visit_neighbor :: "string \<Rightarrow> string set \<times> string list \<Rightarrow> string set \<times> string list" where
  "visit_neighbor neighborId (visited, stack) =
     (if neighborId \<in> visited then (visited, stack)
      else (insert neighborId visited, neighborId # stack))"

text \<open>Every id that occurs as a neighbour: the finite bound of the traversal.\<close>

definition nodes :: "adjacency \<Rightarrow> string set" where
  "nodes adj = (\<Union>(k, ns) \<in> set adj. set ns)"

lemma fold_visit_neighbor_measure:
  assumes "fold visit_neighbor ns (visited, stack) = (visited', stack')"
    and "set ns \<subseteq> U" and "finite U"
  shows "2 * card (U - visited') + length stack' \<le> 2 * card (U - visited) + length stack"
  using assms
proof (induction ns arbitrary: visited stack)
  case Nil
  then show ?case by simp
next
  case (Cons n ns)
  show ?case
  proof (cases "n \<in> visited")
    case True
    with Cons.prems have "fold visit_neighbor ns (visited, stack) = (visited', stack')"
      by simp
    from Cons.IH [OF this] Cons.prems show ?thesis by simp
  next
    case False
    with Cons.prems
    have f: "fold visit_neighbor ns (insert n visited, n # stack) = (visited', stack')"
      by simp
    have "n \<in> U - visited" using False Cons.prems by simp
    then have "card (U - insert n visited) < card (U - visited)"
      using \<open>finite U\<close>
      by (metis Diff_insert card_Diff1_less finite_Diff)
    moreover have "2 * card (U - visited') + length stack'
        \<le> 2 * card (U - insert n visited) + length (n # stack)"
      using Cons.IH [OF f] Cons.prems by simp
    ultimately show ?thesis by simp
  qed
qed

lemma adj_get_subset_nodes: "set (adj_get adj k) \<subseteq> nodes adj"
proof (cases "map_of adj k")
  case None
  then show ?thesis by (simp add: adj_get_def)
next
  case (Some ns)
  then have "(k, ns) \<in> set adj" by (rule map_of_SomeD)
  then show ?thesis using Some by (auto simp: adj_get_def nodes_def)
qed

lemma finite_nodes: "finite (nodes adj)"
  by (auto simp: nodes_def)

text \<open>The \<open>while (stack.length > 0)\<close> loop.\<close>

function traverse ::
  "adjacency \<Rightarrow> string list \<Rightarrow> string set \<Rightarrow> string list \<Rightarrow> string set \<times> string list" where
  "traverse adj [] visited cluster = (visited, cluster)"
| "traverse adj (currentId # stack) visited cluster =
     (case fold visit_neighbor (adj_get adj currentId) (visited, stack) of
        (visited', stack') \<Rightarrow> traverse adj stack' visited' (cluster @ [currentId]))"
  by pat_completeness auto
termination
  apply (relation "measure (\<lambda>(adj, stack, visited, cluster).
                   2 * card (nodes adj - visited) + length stack)")
   apply simp
  subgoal for adj currentId stack visited cluster visited' stack'
    using fold_visit_neighbor_measure [of "adj_get adj currentId" visited stack visited' stack'
        "nodes adj", OF _ adj_get_subset_nodes finite_nodes]
    by simp
  done

text \<open>The \<open>for (const star of currentStars)\<close> loop around it.\<close>

fun collect_clusters ::
  "adjacency \<Rightarrow> CelestialBody list \<Rightarrow> string set \<Rightarrow> string list list \<Rightarrow> string list list" where
  "collect_clusters adj [] visited clusters = clusters"
| "collect_clusters adj (star # rest) visited clusters =
     (if body_id star \<in> visited then collect_clusters adj rest visited clusters
      else case traverse adj [body_id star] (insert (body_id star) visited) [] of
        (visited', cluster) \<Rightarrow>
          collect_clusters adj rest visited'
            (if length cluster \<ge> 3 then clusters @ [cluster] else clusters))"

definition find_clusters :: "env \<Rightarrow> CelestialBody list \<Rightarrow> string list list" where
  "find_clusters e currentStars =
     collect_clusters (build_adjacency e currentStars) currentStars {} []"

section \<open>The proximity graph\<close>

text \<open>
  In the words of the specification, two bodies are adjacent iff the Euclidean distance
  between their positions is strictly less than 180.
\<close>

definition adjacent :: "CelestialBody \<Rightarrow> CelestialBody \<Rightarrow> bool" where
  "adjacent s t \<longleftrightarrow>
     sqrt ((coord_x (coordinates s) - coord_x (coordinates t))\<^sup>2 +
           (coord_y (coordinates s) - coord_y (coordinates t))\<^sup>2) < 180"

definition adjacent_bodies :: "CelestialBody list \<Rightarrow> (CelestialBody \<times> CelestialBody) set" where
  "adjacent_bodies currentStars =
     {(s, t). s \<in> set currentStars \<and> t \<in> set currentStars \<and> adjacent s t}"

text \<open>
  In the code, the body at place \<open>i\<close> and a later one at place \<open>j\<close> are linked when the
  distance computed at line 122 passes the test of line 123. Two ids are linked when
  they are the ids of two linked bodies, in either order, and so for two bodies. The
  component of an id is what can be reached from it along linked ids.
\<close>

definition linked :: "env \<Rightarrow> CelestialBody \<Rightarrow> CelestialBody \<Rightarrow> bool" where
  "linked e s1 s2 \<longleftrightarrow> dist_bodies e s1 s2 < MAX_DIST"

definition linked_ids :: "env \<Rightarrow> CelestialBody list \<Rightarrow> (string \<times> string) set" where
  "linked_ids e currentStars =
     {(a, b). \<exists>i j. i < j \<and> j < length currentStars \<and>
        linked e (currentStars ! i) (currentStars ! j) \<and>
        (a = body_id (currentStars ! i) \<and> b = body_id (currentStars ! j) \<or>
         a = body_id (currentStars ! j) \<and> b = body_id (currentStars ! i))}"

definition linked_bodies :: "env \<Rightarrow> CelestialBody list \<Rightarrow> (CelestialBody \<times> CelestialBody) set" where
  "linked_bodies e currentStars =
     {(s, t). \<exists>i j. i < j \<and> j < length currentStars \<and>
        linked e (currentStars ! i) (currentStars ! j) \<and>
        (s = currentStars ! i \<and> t = currentStars ! j \<or>
         s = currentStars ! j \<and> t = currentStars ! i)}"

definition component :: "env \<Rightarrow> CelestialBody list \<Rightarrow> string \<Rightarrow> string set" where
  "component e currentStars a = {b. (a, b) \<in> (linked_ids e currentStars)\<^sup>*}"

text \<open>
  Two conditions under which a link of the code is an adjacency of the specification:
  \<open>Math.hypot\<close> returns no less than 180 wherever the exact norm is no less than 180, and
  the differences of the coordinates of the bodies are doubles, so that the subtractions
  of line 122 round nothing away.
\<close>

definition hypot_keeps_far :: "env \<Rightarrow> bool" where
  "hypot_keeps_far e \<longleftrightarrow> (\<forall>a b. 180 \<le> sqrt (a\<^sup>2 + b\<^sup>2) \<longrightarrow> 180 \<le> math_hypot e a b)"

definition exact_differences :: "CelestialBody list \<Rightarrow> bool" where
  "exact_differences currentStars \<longleftrightarrow>
     (\<forall>s \<in> set currentStars. \<forall>t \<in> set currentStars.
        double_sub (coord_x (coordinates s)) (coord_x (coordinates t)) =
          coord_x (coordinates s) - coord_x (coordinates t) \<and>
        double_sub (coord_y (coordinates s)) (coord_y (coordinates t)) =
          coord_y (coordinates s) - coord_y (coordinates t))"

text \<open>The relation an adjacency map stands for.\<close>

definition edges :: "adjacency \<Rightarrow> (string \<times> string) set" where
  "edges adj = {(a, b). b \<in> set (adj_get adj a)}"

text \<open>
  The pairs \<open>(currentStars[i], currentStars[j])\<close> with \<open>i < j\<close>, in the order in which
  the two nested loops meet them.
\<close>

fun later_pairs :: "'a list \<Rightarrow> ('a \<times> 'a) list" where
  "later_pairs [] = []"
| "later_pairs (x # xs) = map (Pair x) xs @ later_pairs xs"

section \<open>Reconciliation with the recorded constellations (src/App.tsx, lines 157--225)\<close>

text \<open>
  A JavaScript \<open>Set\<close> of strings, as the list of its elements in insertion order:
  \<open>add\<close> appends an element that is not there yet, \<open>Array.from\<close> is the list itself.
\<close>

definition set_add :: "string list \<Rightarrow> string \<Rightarrow> string list" where
  "set_add s i = (if i \<in> set s then s else s @ [i])"

definition new_Set :: "string list \<Rightarrow> string list" where
  "new_Set xs = foldl set_add [] xs"

text \<open>\<open>addLog\<close> (lines 237--239): newest entry first, at most 50 entries kept.\<close>

definition addLog :: "env \<Rightarrow> string \<Rightarrow> string \<Rightarrow> AppState \<Rightarrow> AppState" where
  "addLog e msg ty st =
     (let (i, st1) = uuidv4 e st;
          (t, st2) = Date_now e st1
      in st2\<lparr>logs := take 50 (\<lparr>log_id = i, timestamp = t, message = msg, log_type = ty\<rparr>
                               # logs st2)\<rparr>)"

text \<open>\<open>c.starIds.some(id => cluster.includes(id))\<close>\<close>

definition overlapping :: "string list \<Rightarrow> Constellation \<Rightarrow> bool" where
  "overlapping cluster c = list_ex (\<lambda>i. i \<in> set cluster) (starIds c)"

text \<open>
  The body of the loop over \<open>overlaps[1..]\<close>: the obsolete constellation's ids go into
  \<open>mergedIds\<close>, and every constellation carrying its id leaves the list.
\<close>

fun absorb ::
  "Constellation \<Rightarrow> string list \<times> Constellation list \<Rightarrow> string list \<times> Constellation list" where
  "absorb obsolete (mergedIds, updated) =
     (foldl set_add mergedIds (starIds obsolete),
      filter (\<lambda>c. cid c \<noteq> cid obsolete) updated)"

definition rewardStarlight :: "string list \<Rightarrow> nat" where
  "rewardStarlight cluster = 50 + length cluster * 10"

definition rewardData :: "string list \<Rightarrow> nat" where
  "rewardData cluster = 20 + length cluster * 5"

text \<open>The branch \<open>overlaps.length === 0\<close>.\<close>

definition create_constellation ::
  "env \<Rightarrow> string list \<Rightarrow> Constellation list \<times> bool \<times> AppState
     \<Rightarrow> Constellation list \<times> bool \<times> AppState" where
  "create_constellation e cluster = (\<lambda>(updated, hasChanges, st).
     let (name, st1) = generateConstellationName e (length cluster) st;
         (i, st2) = uuidv4 e st1;
         (t, st3) = Date_now e st2;
         newConstellation = \<lparr>cid = i, cname = name, starIds = cluster, discoveredAt = t\<rparr>;
         st4 = st3\<lparr>resources := (resources st3)
                  \<lparr>starlight := starlight (resources st3) + real (rewardStarlight cluster),
                   data := data (resources st3) + real (rewardData cluster)\<rparr>\<rparr>;
         st5 = addLog e (''Constellation Charted: '' @ name @ ''! (+''
                         @ show_nat (rewardStarlight cluster) @ '' Light, +''
                         @ show_nat (rewardData cluster) @ '' Data)'') ''constellation'' st4
     in (updated @ [newConstellation], True, st5))"

text \<open>The branch with overlaps, \<open>primaryC = overlaps[0]\<close>.\<close>

definition merge_constellations ::
  "string list \<Rightarrow> Constellation \<Rightarrow> Constellation list \<Rightarrow> Constellation list \<times> bool \<times> AppState
     \<Rightarrow> Constellation list \<times> bool \<times> AppState" where
  "merge_constellations cluster primaryC others = (\<lambda>(updated, hasChanges, st).
     let hasNewStars = list_ex (\<lambda>i. i \<notin> set (starIds primaryC)) cluster
     in if hasNewStars \<or> length (primaryC # others) > 1 then
          let (mergedIds, updated1) =
                fold absorb others (new_Set (starIds primaryC @ cluster), updated)
          in (map (\<lambda>c. if cid c = cid primaryC then c\<lparr>starIds := mergedIds\<rparr> else c) updated1,
              True, st)
        else (updated, hasChanges, st))"

text \<open>The body of \<open>for (const cluster of clusters)\<close>.\<close>

definition reconcile_cluster ::
  "env \<Rightarrow> string list \<Rightarrow> Constellation list \<times> bool \<times> AppState
     \<Rightarrow> Constellation list \<times> bool \<times> AppState" where
  "reconcile_cluster e cluster = (\<lambda>(updated, hasChanges, st).
     case filter (overlapping cluster) updated of
       [] \<Rightarrow> create_constellation e cluster (updated, hasChanges, st)
     | primaryC # others \<Rightarrow> merge_constellations cluster primaryC others (updated, hasChanges, st))"

definition checkForConstellations ::
  "env \<Rightarrow> CelestialBody list \<Rightarrow> Constellation list \<Rightarrow> AppState \<Rightarrow> AppState" where
  "checkForConstellations e currentStars currentConstellations st =
     (if length currentStars < 3 then st
      else case fold (reconcile_cluster e) (find_clusters e currentStars)
                  (currentConstellations, False, st) of
        (updatedConstellations, hasChanges, st') \<Rightarrow>
          if hasChanges then st'\<lparr>constellations := updatedConstellations\<rparr> else st')"

text \<open>
  The effect that triggers the check (lines 228--233) passes the constellation list of
  the state; a sequence of reconciliation calls, each finished before the next is fired,
  is a sequence of body lists.
\<close>

definition reconcile :: "env \<Rightarrow> CelestialBody list \<Rightarrow> AppState \<Rightarrow> AppState" where
  "reconcile e currentStars st = checkForConstellations e currentStars (constellations st) st"

definition reconcile_all :: "env \<Rightarrow> CelestialBody list list \<Rightarrow> AppState \<Rightarrow> AppState" where
  "reconcile_all e calls st = fold (reconcile e) calls st"


section \<open>The invariants of the data model\<close>

text \<open>
  The invariants of the data model: identities are unique, a constellation has at least
  three member ids, the member sets of two different constellations do not overlap. An
  identity is issued when it is one of the answers \<open>uuidv4\<close> has given so far. A cluster
  is settled in a list when one constellation holds all its ids and no other
  constellation holds any of them.
\<close>

definition member_sets_disjoint :: "Constellation list \<Rightarrow> bool" where
  "member_sets_disjoint cs \<longleftrightarrow>
     (\<forall>c \<in> set cs. \<forall>d \<in> set cs. c \<noteq> d \<longrightarrow> set (starIds c) \<inter> set (starIds d) = {})"

definition valid_registry :: "Constellation list \<Rightarrow> bool" where
  "valid_registry cs \<longleftrightarrow>
     distinct (map cid cs) \<and> (\<forall>c \<in> set cs. 3 \<le> card (set (starIds c))) \<and>
     member_sets_disjoint cs"

definition issued :: "env \<Rightarrow> AppState \<Rightarrow> Constellation list \<Rightarrow> bool" where
  "issued e st cs \<longleftrightarrow> cid ` set cs \<subseteq> uuid_stream e ` {..< uuid_calls st}"

definition settled :: "string list \<Rightarrow> Constellation list \<Rightarrow> bool" where
  "settled cluster cs \<longleftrightarrow>
     (\<exists>p \<in> set cs. set cluster \<subseteq> set (starIds p) \<and>
        (\<forall>c \<in> set cs. overlapping cluster c \<longrightarrow> c = p))"

section \<open>Scenarios\<close>

text \<open>
  Concrete inputs: bodies at given positions, recorded constellations with given members,
  the starting resources of src/constants.ts, and a world whose naming service always
  rejects, whose random draws are all one half, whose identities never repeat and whose
  \<open>Math.hypot\<close> is correctly rounded.
\<close>

definition body_at :: "string \<Rightarrow> real \<Rightarrow> real \<Rightarrow> CelestialBody" where
  "body_at i px py =
     \<lparr>body_id = i, body_name = ''Unknown'', body_type = STAR,
      description = ''No data available.'', distanceLightYears = 0, spectralClass = None,
      temperatureK = None, coordinates = \<lparr>coord_x = px, coord_y = py\<rparr>,
      color = ''#ffffff'', discoveryDate = 0, analyzed = False\<rparr>"

definition recorded :: "string \<Rightarrow> string list \<Rightarrow> Constellation" where
  "recorded i members = \<lparr>cid = i, cname = ''Cygnus Major'', starIds = members, discoveredAt = 0\<rparr>"

definition INITIAL_RESOURCES :: GameResources where
  "INITIAL_RESOURCES = \<lparr>starlight = 0, data = 0, focus = 100\<rparr>"

definition initial_state :: AppState where
  "initial_state =
     \<lparr>resources = INITIAL_RESOURCES, stars = [], constellations = [], logs = [],
      ai_calls = 0, random_calls = 0, uuid_calls = 0, now_calls = 0\<rparr>"

text \<open>
  A correctly rounded \<open>Math.hypot\<close>: the double nearest to the exact square root of the
  sum of the squares.
\<close>

definition hypot_nearest :: "real \<Rightarrow> real \<Rightarrow> real" where
  "hypot_nearest a b = round_double (sqrt (a\<^sup>2 + b\<^sup>2))"

definition offline_env :: env where
  "offline_env =
     \<lparr>generateContent = (\<lambda>n. Rejected), math_random = (\<lambda>n. 1 / 2),
      uuid_stream = (\<lambda>n. replicate (Suc n) CHR ''u''), clock = (\<lambda>n. 1000 + n),
      math_hypot = hypot_nearest\<rparr>"

text \<open>The same world with every random draw equal to zero.\<close>

definition offline_env_zero :: env where
  "offline_env_zero = offline_env\<lparr>math_random := (\<lambda>n. 0)\<rparr>"

text \<open>
  Scenario A of the specification with a fourth body far away; the same with two more
  bodies next to the fourth; three bodies 300 apart from one another in a row; Scenario B
  (two bodies 300 apart); and three bodies in a row, the outer two about 283 apart.
\<close>

definition scenario_A_and_far :: "CelestialBody list" where
  "scenario_A_and_far =
     [body_at ''A'' 0 0, body_at ''B'' 50 50, body_at ''C'' 90 90, body_at ''D'' 500 500]"

definition two_groups :: "CelestialBody list" where
  "two_groups =
     [body_at ''A'' 0 0, body_at ''B'' 50 50, body_at ''C'' 90 90, body_at ''D'' 500 500,
      body_at ''E'' 550 550, body_at ''F'' 600 600]"

definition three_far_apart :: "CelestialBody list" where
  "three_far_apart = [body_at ''A'' 0 0, body_at ''B'' 300 0, body_at ''C'' 600 0]"

definition scenario_B :: "CelestialBody list" where
  "scenario_B = [body_at ''A'' 0 0, body_at ''B'' 300 0]"

definition chain_of_three :: "CelestialBody list" where
  "chain_of_three = [body_at ''A'' 0 0, body_at ''B'' 100 100, body_at ''C'' 200 200]"

text \<open>
  Three bodies: the second is at distance about \<open>180 - 0.2 / 2 ^ 45\<close> from the first, and
  the third is about 6 away from the second and more than 184 away from the first.
\<close>

definition near_miss :: "CelestialBody list" where
  "near_miss =
     [body_at ''A'' 0 0, body_at ''B'' (108 + 1 / 2 ^ 45) (144 - 1 / 2 ^ 45),
      body_at ''C'' (108 + 1 / 2 ^ 45) 150]"


text \<open>
  The state after a first check on Scenario A and the far body, the two constellations
  that this check and a later one on the six bodies chart, and the constellation that a
  check on Scenario A charts after the first when it is given an empty list.
\<close>

definition after_scenario_A :: AppState where
  "after_scenario_A = reconcile offline_env scenario_A_and_far initial_state"

definition first_constellation :: Constellation where
  "first_constellation =
     \<lparr>cid = ''u'', cname = ''The Great Cross'', starIds = [''A'', ''C'', ''B''],
      discoveredAt = 1000\<rparr>"

definition second_constellation :: Constellation where
  "second_constellation =
     \<lparr>cid = ''uuu'', cname = ''The Great Cross'', starIds = [''D'', ''F'', ''E''],
      discoveredAt = 1002\<rparr>"


section \<open>The three branches of the loop body\<close>

lemma generateConstellationName_frame:
  "resources (snd (generateConstellationName e n st)) = resources st"
  "stars (snd (generateConstellationName e n st)) = stars st"
  "constellations (snd (generateConstellationName e n st)) = constellations st"
  "logs (snd (generateConstellationName e n st)) = logs st"
  "uuid_calls (snd (generateConstellationName e n st)) = uuid_calls st"
  "now_calls (snd (generateConstellationName e n st)) = now_calls st"
  by (simp_all add: generateConstellationName_def fallback_name_def cluster_name_def
      Math_random_def Let_def split: ai_outcome.split option.split)

lemma overlapping_iff: "overlapping cluster c \<longleftrightarrow> set (starIds c) \<inter> set cluster \<noteq> {}"
  by (auto simp: overlapping_def list_ex_iff)

lemma no_overlaps_iff:
  "filter (overlapping cluster) updated = [] \<longleftrightarrow>
     (\<forall>c \<in> set updated. set (starIds c) \<inter> set cluster = {})"
  by (simp add: filter_empty_conv overlapping_iff)

lemma create_constellation_result:
  "create_constellation e cluster (updated, hasChanges, st) = (updated', hasChanges', st') \<Longrightarrow>
   updated' = updated @ [\<lparr>cid = uuid_stream e (uuid_calls st),
                           cname = fst (generateConstellationName e (length cluster) st),
                           starIds = cluster, discoveredAt = clock e (now_calls st)\<rparr>] \<and>
   hasChanges' \<and>
   resources st' = (resources st)
      \<lparr>starlight := starlight (resources st) + real (rewardStarlight cluster),
       data := data (resources st) + real (rewardData cluster)\<rparr> \<and>
   logs st' = take 50 (\<lparr>log_id = uuid_stream e (Suc (uuid_calls st)),
                         timestamp = clock e (Suc (now_calls st)),
                         message = ''Constellation Charted: ''
                           @ fst (generateConstellationName e (length cluster) st) @ ''! (+''
                           @ show_nat (rewardStarlight cluster) @ '' Light, +''
                           @ show_nat (rewardData cluster) @ '' Data)'',
                         log_type = ''constellation''\<rparr> # logs st) \<and>
   stars st' = stars st \<and> constellations st' = constellations st \<and>
   uuid_calls st' = uuid_calls st + 2 \<and> now_calls st' = now_calls st + 2"
  by (auto simp: create_constellation_def addLog_def uuidv4_def Date_now_def Let_def
      generateConstellationName_frame case_prod_beta)

lemma set_foldl_set_add: "set (foldl set_add m xs) = set m \<union> set xs"
  by (induction xs arbitrary: m) (auto simp: set_add_def)

lemma distinct_foldl_set_add: "distinct m \<Longrightarrow> distinct (foldl set_add m xs)"
  by (induction xs arbitrary: m) (auto simp: set_add_def)

lemma set_new_Set: "set (new_Set xs) = set xs"
  by (simp add: new_Set_def set_foldl_set_add)

lemma distinct_new_Set: "distinct (new_Set xs)"
  by (simp add: new_Set_def distinct_foldl_set_add)

lemma fold_absorb:
  "fold absorb others (m, u) =
     (foldl set_add m (concat (map starIds others)),
      filter (\<lambda>c. cid c \<notin> cid ` set others) u)"
proof (induction others arbitrary: m u)
  case Nil
  then show ?case by simp
next
  case (Cons a others)
  have "filter (\<lambda>c. cid c \<notin> cid ` set others) (filter (\<lambda>c. cid c \<noteq> cid a) u)
      = filter (\<lambda>c. cid c \<notin> cid ` set (a # others)) u"
    by (induction u) auto
  with Cons show ?case by simp
qed

lemma merge_constellations_eq:
  "merge_constellations cluster primaryC others (updated, hasChanges, st) =
     (if \<not> set cluster \<subseteq> set (starIds primaryC) \<or> others \<noteq> [] then
        (map (\<lambda>c. if cid c = cid primaryC
                   then c\<lparr>starIds := foldl set_add (new_Set (starIds primaryC @ cluster))
                                         (concat (map starIds others))\<rparr>
                   else c)
             (filter (\<lambda>c. cid c \<notin> cid ` set others) updated), True, st)
      else (updated, hasChanges, st))"
proof -
  have "list_ex (\<lambda>i. i \<notin> set (starIds primaryC)) cluster \<longleftrightarrow> \<not> set cluster \<subseteq> set (starIds primaryC)"
    by (auto simp: list_ex_iff)
  moreover have "length (primaryC # others) > 1 \<longleftrightarrow> others \<noteq> []"
    by (cases others) auto
  ultimately show ?thesis
    unfolding merge_constellations_def by (simp add: fold_absorb del: length_greater_0_conv)
qed

lemma distinct_cid_eq:
  assumes "distinct (map cid updated)" "c \<in> set updated" "d \<in> set updated"
  shows "cid c = cid d \<longleftrightarrow> c = d"
  using assms by (meson distinct_map inj_on_def)

lemma filter_map_by_cid:
  assumes d: "distinct (map cid updated)"
    and p: "primaryC \<in> set updated" and os: "set others \<subseteq> set updated"
  shows "map (\<lambda>c. if cid c = cid primaryC then f c else c)
           (filter (\<lambda>c. cid c \<notin> cid ` set others) updated)
       = map (\<lambda>c. if c = primaryC then f c else c) (filter (\<lambda>c. c \<notin> set others) updated)"
proof -
  have 1: "filter (\<lambda>c. cid c \<notin> cid ` set others) updated = filter (\<lambda>c. c \<notin> set others) updated"
  proof (rule filter_cong [OF refl])
    fix c assume "c \<in> set updated"
    show "(cid c \<notin> cid ` set others) = (c \<notin> set others)"
    proof
      assume "cid c \<notin> cid ` set others"
      then show "c \<notin> set others" by auto
    next
      assume n: "c \<notin> set others"
      show "cid c \<notin> cid ` set others"
      proof
        assume "cid c \<in> cid ` set others"
        then obtain c' where c': "c' \<in> set others" "cid c = cid c'" by auto
        with os have "c' \<in> set updated" by auto
        from distinct_cid_eq [OF d \<open>c \<in> set updated\<close> this] c' have "c = c'" by simp
        with n c' show False by simp
      qed
    qed
  qed
  have 2: "map (\<lambda>c. if cid c = cid primaryC then f c else c) xs
         = map (\<lambda>c. if c = primaryC then f c else c) xs" if "set xs \<subseteq> set updated" for xs
    using that distinct_cid_eq [OF d _ p] by (intro map_cong) auto
  show ?thesis unfolding 1 by (rule 2) auto
qed

text \<open>
  Claim C4. A cluster that shares no member id with any recorded constellation appends
  exactly one constellation to the list: its members are the cluster, its identity is the
  next answer of \<open>uuidv4\<close> (different from every recorded identity when \<open>uuidv4\<close> never
  repeats itself and the recorded identities are earlier answers), its timestamp the next
  answer of \<open>Date.now\<close>. The resources grow by \<open>50 + 10 \<times> size\<close> starlight and
  \<open>20 + 5 \<times> size\<close> data, the focus is untouched, and one log entry announcing the
  constellation and both amounts is put in front of the log.
\<close>

theorem new_cluster_creates_constellation:
  assumes "\<forall>c \<in> set updated. set (starIds c) \<inter> set cluster = {}"
  shows "case reconcile_cluster e cluster (updated, hasChanges, st) of
           (updated', hasChanges', st') \<Rightarrow>
             updated' = updated @
               [\<lparr>cid = uuid_stream e (uuid_calls st),
                 cname = fst (generateConstellationName e (length cluster) st),
                 starIds = cluster, discoveredAt = clock e (now_calls st)\<rparr>] \<and>
             hasChanges' \<and>
             resources st' =
               \<lparr>starlight = starlight (resources st) + (50 + 10 * real (length cluster)),
                data = data (resources st) + (20 + 5 * real (length cluster)),
                focus = focus (resources st)\<rparr> \<and>
             logs st' = take 50
               (\<lparr>log_id = uuid_stream e (Suc (uuid_calls st)),
                 timestamp = clock e (Suc (now_calls st)),
                 message = ''Constellation Charted: ''
                   @ fst (generateConstellationName e (length cluster) st) @ ''! (+''
                   @ show_nat (50 + length cluster * 10) @ '' Light, +''
                   @ show_nat (20 + length cluster * 5) @ '' Data)'',
                 log_type = ''constellation''\<rparr> # logs st) \<and>
             uuid_calls st' = uuid_calls st + 2 \<and>
             (inj (uuid_stream e) \<and> cid ` set updated \<subseteq> uuid_stream e ` {..< uuid_calls st}
                \<longrightarrow> uuid_stream e (uuid_calls st) \<notin> cid ` set updated)"
proof -
  obtain updated' hasChanges' st' where
    r: "reconcile_cluster e cluster (updated, hasChanges, st) = (updated', hasChanges', st')"
    by (metis prod_cases3)
  from assms have "filter (overlapping cluster) updated = []"
    by (simp add: no_overlaps_iff)
  with r have "create_constellation e cluster (updated, hasChanges, st) = (updated', hasChanges', st')"
    by (simp add: reconcile_cluster_def)
  note c = create_constellation_result [OF this]
  have fresh: "uuid_stream e (uuid_calls st) \<notin> cid ` set updated"
    if "inj (uuid_stream e)" "cid ` set updated \<subseteq> uuid_stream e ` {..< uuid_calls st}"
  proof
    assume "uuid_stream e (uuid_calls st) \<in> cid ` set updated"
    with that(2) obtain k where "k < uuid_calls st" "uuid_stream e (uuid_calls st) = uuid_stream e k"
      by auto
    with that(1) show False by (auto dest: injD)
  qed
  have "resources st' = \<lparr>starlight = starlight (resources st) + (50 + 10 * real (length cluster)),
                data = data (resources st) + (20 + 5 * real (length cluster)),
                focus = focus (resources st)\<rparr>"
    using c by (simp add: rewardStarlight_def rewardData_def)
  then show ?thesis
    using c fresh unfolding r by (simp add: rewardStarlight_def rewardData_def)
qed

lemma inj_offline_uuid: "inj (uuid_stream offline_env)"
proof (rule injI)
  fix m n assume "uuid_stream offline_env m = uuid_stream offline_env n"
  then have "length (replicate (Suc m) CHR ''u'') = length (replicate (Suc n) CHR ''u'')"
    by (simp add: offline_env_def)
  then show "m = n" by simp
qed

theorem new_cluster_creates_constellation_witness:
  "set (starIds (recorded ''u'' [''D'', ''E'', ''F''])) \<inter> set [''A'', ''C'', ''B''] = {} \<and>
   inj (uuid_stream offline_env) \<and>
   cid ` set [recorded ''u'' [''D'', ''E'', ''F'']] \<subseteq> uuid_stream offline_env ` {..< 2} \<and>
   fst (reconcile_cluster offline_env [''A'', ''C'', ''B'']
          ([recorded ''u'' [''D'', ''E'', ''F'']], False, initial_state\<lparr>uuid_calls := 2\<rparr>)) =
     [recorded ''u'' [''D'', ''E'', ''F''],
      \<lparr>cid = ''uuu'', cname = ''The Great Cross'', starIds = [''A'', ''C'', ''B''],
       discoveredAt = 1000\<rparr>] \<and>
   resources (snd (snd (reconcile_cluster offline_env [''A'', ''C'', ''B'']
          ([recorded ''u'' [''D'', ''E'', ''F'']], False, initial_state\<lparr>uuid_calls := 2\<rparr>)))) =
     \<lparr>starlight = 80, data = 35, focus = 100\<rparr> \<and>
   ''uuu'' \<notin> cid ` set [recorded ''u'' [''D'', ''E'', ''F'']]"
proof -
  have h: "\<forall>c \<in> set [recorded ''u'' [''D'', ''E'', ''F'']].
       set (starIds c) \<inter> set [''A'', ''C'', ''B''] = {}"
    by (simp add: recorded_def)
  have u: "cid ` set [recorded ''u'' [''D'', ''E'', ''F'']] \<subseteq> uuid_stream offline_env ` {..< 2}"
    by (simp add: recorded_def offline_env_def lessThan_Suc numeral_2_eq_2)
  let ?st = "initial_state\<lparr>uuid_calls := 2\<rparr>"
  have n: "fst (generateConstellationName offline_env (length [''A'', ''C'', ''B'']) ?st)
      = ''The Great Cross''"
    by (simp add: generateConstellationName_def fallback_name_def Math_random_def offline_env_def
        initial_state_def floor_scaled_def prefixes_def roots_def)
  have s: "uuid_calls ?st = 2" "now_calls ?st = 0"
    "resources ?st = \<lparr>starlight = 0, data = 0, focus = 100\<rparr>"
    by (simp_all add: initial_state_def INITIAL_RESOURCES_def)
  have w: "uuid_stream offline_env 2 = ''uuu''" "clock offline_env 0 = 1000"
    by (simp_all add: offline_env_def numeral_2_eq_2)
  have r: "''uuu'' \<notin> cid ` set [recorded ''u'' [''D'', ''E'', ''F'']]"
    by (simp add: recorded_def)
  from new_cluster_creates_constellation [OF h, where e = offline_env
        and hasChanges = False and st = ?st]
  have "fst (reconcile_cluster offline_env [''A'', ''C'', ''B'']
          ([recorded ''u'' [''D'', ''E'', ''F'']], False, ?st)) =
     [recorded ''u'' [''D'', ''E'', ''F''],
      \<lparr>cid = ''uuu'', cname = ''The Great Cross'', starIds = [''A'', ''C'', ''B''],
       discoveredAt = 1000\<rparr>]"
    and "resources (snd (snd (reconcile_cluster offline_env [''A'', ''C'', ''B'']
          ([recorded ''u'' [''D'', ''E'', ''F'']], False, ?st)))) =
     \<lparr>starlight = 80, data = 35, focus = 100\<rparr>"
    using n s w by (simp_all add: case_prod_beta)
  with h u inj_offline_uuid r show ?thesis by simp
qed

text \<open>
  Claim C3. When two or more recorded constellations share a member with the cluster
  (identities being pairwise distinct), the first of them in list order stays at its place
  with the union of the cluster and of all overlapping member sets as its members, the
  other overlapping ones leave the list, every other constellation is kept as it is, and
  the state (resources, log, calls to the outside world) is exactly what it was.
\<close>

theorem bridging_cluster_merges_overlaps:
  assumes "filter (\<lambda>c. set (starIds c) \<inter> set cluster \<noteq> {}) updated = primaryC # others"
    and "others \<noteq> []"
    and "distinct (map cid updated)"
  shows "case reconcile_cluster e cluster (updated, hasChanges, st) of
           (updated', hasChanges', st') \<Rightarrow>
             (\<exists>mergedIds.
                updated' = map (\<lambda>c. if c = primaryC then c\<lparr>starIds := mergedIds\<rparr> else c)
                               (filter (\<lambda>c. c \<notin> set others) updated) \<and>
                set mergedIds = set cluster \<union> (\<Union>c \<in> set (primaryC # others). set (starIds c)) \<and>
                distinct mergedIds) \<and>
             hasChanges' \<and> st' = st"
proof -
  have f: "filter (overlapping cluster) updated = primaryC # others"
    using assms(1) by (simp add: overlapping_iff [abs_def])
  then have "set (primaryC # others) \<subseteq> set updated"
    by (metis filter_is_subset)
  then have p: "primaryC \<in> set updated" and os: "set others \<subseteq> set updated" by auto
  let ?m = "foldl set_add (new_Set (starIds primaryC @ cluster)) (concat (map starIds others))"
  have "reconcile_cluster e cluster (updated, hasChanges, st) =
      (map (\<lambda>c. if c = primaryC then c\<lparr>starIds := ?m\<rparr> else c)
           (filter (\<lambda>c. c \<notin> set others) updated), True, st)"
    using assms(2) f
    by (simp add: reconcile_cluster_def merge_constellations_eq
        filter_map_by_cid [OF assms(3) p os])
  moreover have "set ?m = set cluster \<union> (\<Union>c \<in> set (primaryC # others). set (starIds c))"
    by (auto simp: set_foldl_set_add set_new_Set)
  moreover have "distinct ?m"
    by (simp add: distinct_foldl_set_add distinct_new_Set)
  ultimately show ?thesis by auto
qed

theorem bridging_cluster_merges_overlaps_witness:
  "filter (\<lambda>c. set (starIds c) \<inter> set [''A'', ''B'', ''C'', ''G'', ''D'', ''E'', ''F''] \<noteq> {})
     [recorded ''u'' [''A'', ''B'', ''C''], recorded ''uuu'' [''X'', ''Y'', ''Z''],
      recorded ''uuuuu'' [''D'', ''E'', ''F'']]
     = [recorded ''u'' [''A'', ''B'', ''C''], recorded ''uuuuu'' [''D'', ''E'', ''F'']] \<and>
   distinct (map cid [recorded ''u'' [''A'', ''B'', ''C''], recorded ''uuu'' [''X'', ''Y'', ''Z''],
      recorded ''uuuuu'' [''D'', ''E'', ''F'']]) \<and>
   (\<exists>mergedIds.
      fst (reconcile_cluster offline_env [''A'', ''B'', ''C'', ''G'', ''D'', ''E'', ''F'']
            ([recorded ''u'' [''A'', ''B'', ''C''], recorded ''uuu'' [''X'', ''Y'', ''Z''],
              recorded ''uuuuu'' [''D'', ''E'', ''F'']], False, initial_state))
        = [recorded ''u'' mergedIds, recorded ''uuu'' [''X'', ''Y'', ''Z'']] \<and>
      set mergedIds = {''A'', ''B'', ''C'', ''D'', ''E'', ''F'', ''G''}) \<and>
   snd (snd (reconcile_cluster offline_env [''A'', ''B'', ''C'', ''G'', ''D'', ''E'', ''F'']
            ([recorded ''u'' [''A'', ''B'', ''C''], recorded ''uuu'' [''X'', ''Y'', ''Z''],
              recorded ''uuuuu'' [''D'', ''E'', ''F'']], False, initial_state)))
     = initial_state"
proof -
  let ?K = "[''A'', ''B'', ''C'', ''G'', ''D'', ''E'', ''F'']"
  let ?L = "[recorded ''u'' [''A'', ''B'', ''C''], recorded ''uuu'' [''X'', ''Y'', ''Z''],
      recorded ''uuuuu'' [''D'', ''E'', ''F'']]"
  have h1: "filter (\<lambda>c. set (starIds c) \<inter> set ?K \<noteq> {}) ?L
     = [recorded ''u'' [''A'', ''B'', ''C''], recorded ''uuuuu'' [''D'', ''E'', ''F'']]"
    by (simp add: recorded_def)
  have h2: "[recorded ''uuuuu'' [''D'', ''E'', ''F'']] \<noteq> []" by simp
  have h3: "distinct (map cid ?L)" by (simp add: recorded_def)
  have k: "filter (\<lambda>c. c \<notin> set [recorded ''uuuuu'' [''D'', ''E'', ''F'']]) ?L
      = [recorded ''u'' [''A'', ''B'', ''C''], recorded ''uuu'' [''X'', ''Y'', ''Z'']]"
    by (simp add: recorded_def)
  from bridging_cluster_merges_overlaps [OF h1 h2 h3, where e = offline_env
      and hasChanges = False and st = initial_state]
  obtain mergedIds where
    "fst (reconcile_cluster offline_env ?K (?L, False, initial_state))
       = map (\<lambda>c. if c = recorded ''u'' [''A'', ''B'', ''C''] then c\<lparr>starIds := mergedIds\<rparr> else c)
           [recorded ''u'' [''A'', ''B'', ''C''], recorded ''uuu'' [''X'', ''Y'', ''Z'']]"
    and "set mergedIds = set ?K \<union>
       (\<Union>c \<in> set [recorded ''u'' [''A'', ''B'', ''C''], recorded ''uuuuu'' [''D'', ''E'', ''F'']].
           set (starIds c))"
    and "snd (snd (reconcile_cluster offline_env ?K (?L, False, initial_state))) = initial_state"
    unfolding k by (auto simp: case_prod_beta)
  then have "fst (reconcile_cluster offline_env ?K (?L, False, initial_state))
        = [recorded ''u'' mergedIds, recorded ''uuu'' [''X'', ''Y'', ''Z'']] \<and>
      set mergedIds = {''A'', ''B'', ''C'', ''D'', ''E'', ''F'', ''G''} \<and>
      snd (snd (reconcile_cluster offline_env ?K (?L, False, initial_state))) = initial_state"
    by (auto simp: recorded_def)
  with h1 h3 show ?thesis by blast
qed

text \<open>
  Claim C5. When exactly one recorded constellation shares a member with the cluster
  (identities being pairwise distinct): the state is what it was (no reward, no log entry);
  if the cluster has no id outside the constellation, the list and the change flag are
  untouched; otherwise that constellation, and no other, gets the union of its old members
  and the cluster as members, which is the cluster itself when the cluster is a superset
  of the old members.
\<close>

theorem single_overlap_extends_or_keeps:
  assumes "filter (\<lambda>c. set (starIds c) \<inter> set cluster \<noteq> {}) updated = [primaryC]"
    and "distinct (map cid updated)"
  shows "case reconcile_cluster e cluster (updated, hasChanges, st) of
           (updated', hasChanges', st') \<Rightarrow>
             st' = st \<and>
             (set cluster \<subseteq> set (starIds primaryC) \<longrightarrow>
                updated' = updated \<and> hasChanges' = hasChanges) \<and>
             (\<not> set cluster \<subseteq> set (starIds primaryC) \<longrightarrow>
                hasChanges' \<and>
                (\<exists>mergedIds.
                   updated' = map (\<lambda>c. if c = primaryC then c\<lparr>starIds := mergedIds\<rparr> else c)
                                  updated \<and>
                   set mergedIds = set (starIds primaryC) \<union> set cluster \<and>
                   distinct mergedIds \<and>
                   (set (starIds primaryC) \<subseteq> set cluster \<longrightarrow> set mergedIds = set cluster)))"
proof -
  have f: "filter (overlapping cluster) updated = [primaryC]"
    using assms(1) by (simp add: overlapping_iff [abs_def])
  then have "set [primaryC] \<subseteq> set updated"
    by (metis filter_is_subset)
  then have p: "primaryC \<in> set updated" by auto
  let ?m = "new_Set (starIds primaryC @ cluster)"
  have "reconcile_cluster e cluster (updated, hasChanges, st) =
      (if \<not> set cluster \<subseteq> set (starIds primaryC) then
         (map (\<lambda>c. if c = primaryC then c\<lparr>starIds := ?m\<rparr> else c) updated, True, st)
       else (updated, hasChanges, st))"
    using f filter_map_by_cid [OF assms(2) p, of "[]"]
    by (simp add: reconcile_cluster_def merge_constellations_eq)
  moreover have "set ?m = set (starIds primaryC) \<union> set cluster"
    by (auto simp: set_new_Set)
  moreover have "distinct ?m"
    by (simp add: distinct_new_Set)
  ultimately show ?thesis by auto
qed

theorem single_overlap_extends_or_keeps_witness:
  "filter (\<lambda>c. set (starIds c) \<inter> set [''A'', ''B'', ''C'', ''D''] \<noteq> {})
     [recorded ''u'' [''A'', ''B'', ''C''], recorded ''uuu'' [''X'', ''Y'', ''Z'']]
     = [recorded ''u'' [''A'', ''B'', ''C'']] \<and>
   distinct (map cid [recorded ''u'' [''A'', ''B'', ''C''], recorded ''uuu'' [''X'', ''Y'', ''Z'']]) \<and>
   \<not> set [''A'', ''B'', ''C'', ''D''] \<subseteq> set (starIds (recorded ''u'' [''A'', ''B'', ''C''])) \<and>
   set (starIds (recorded ''u'' [''A'', ''B'', ''C''])) \<subseteq> set [''A'', ''B'', ''C'', ''D''] \<and>
   (\<exists>mergedIds.
      reconcile_cluster offline_env [''A'', ''B'', ''C'', ''D'']
            ([recorded ''u'' [''A'', ''B'', ''C''], recorded ''uuu'' [''X'', ''Y'', ''Z'']],
             False, initial_state)
        = ([recorded ''u'' mergedIds, recorded ''uuu'' [''X'', ''Y'', ''Z'']], True, initial_state) \<and>
      set mergedIds = {''A'', ''B'', ''C'', ''D''}) \<and>
   filter (\<lambda>c. set (starIds c) \<inter> set [''C'', ''A'', ''B''] \<noteq> {})
     [recorded ''u'' [''A'', ''B'', ''C''], recorded ''uuu'' [''X'', ''Y'', ''Z'']]
     = [recorded ''u'' [''A'', ''B'', ''C'']] \<and>
   set [''C'', ''A'', ''B''] \<subseteq> set (starIds (recorded ''u'' [''A'', ''B'', ''C''])) \<and>
   reconcile_cluster offline_env [''C'', ''A'', ''B'']
         ([recorded ''u'' [''A'', ''B'', ''C''], recorded ''uuu'' [''X'', ''Y'', ''Z'']],
          False, initial_state)
     = ([recorded ''u'' [''A'', ''B'', ''C''], recorded ''uuu'' [''X'', ''Y'', ''Z'']],
        False, initial_state)"
proof -
  let ?K = "[''A'', ''B'', ''C'', ''D'']"
  let ?L = "[recorded ''u'' [''A'', ''B'', ''C''], recorded ''uuu'' [''X'', ''Y'', ''Z'']]"
  have h1: "filter (\<lambda>c. set (starIds c) \<inter> set ?K \<noteq> {}) ?L = [recorded ''u'' [''A'', ''B'', ''C'']]"
    by (simp add: recorded_def)
  have h2: "distinct (map cid ?L)" by (simp add: recorded_def)
  have h3: "\<not> set ?K \<subseteq> set (starIds (recorded ''u'' [''A'', ''B'', ''C'']))"
    by (simp add: recorded_def)
  have h4: "set (starIds (recorded ''u'' [''A'', ''B'', ''C''])) \<subseteq> set ?K"
    by (simp add: recorded_def)
  obtain updated' hasChanges' st' where
    r: "reconcile_cluster offline_env ?K (?L, False, initial_state) = (updated', hasChanges', st')"
    by (metis prod_cases3)
  from single_overlap_extends_or_keeps [OF h1 h2, where e = offline_env
      and hasChanges = False and st = initial_state] h3 h4
  obtain mergedIds where
    "st' = initial_state" "hasChanges'"
    "updated' = map (\<lambda>c. if c = recorded ''u'' [''A'', ''B'', ''C''] then c\<lparr>starIds := mergedIds\<rparr> else c) ?L"
    "set mergedIds = set ?K"
    unfolding r by auto
  then have "reconcile_cluster offline_env ?K (?L, False, initial_state)
        = ([recorded ''u'' mergedIds, recorded ''uuu'' [''X'', ''Y'', ''Z'']], True, initial_state) \<and>
      set mergedIds = {''A'', ''B'', ''C'', ''D''}"
    unfolding r by (auto simp: recorded_def)
  moreover
  have k1: "filter (\<lambda>c. set (starIds c) \<inter> set [''C'', ''A'', ''B''] \<noteq> {}) ?L
      = [recorded ''u'' [''A'', ''B'', ''C'']]"
    by (simp add: recorded_def)
  have k2: "set [''C'', ''A'', ''B''] \<subseteq> set (starIds (recorded ''u'' [''A'', ''B'', ''C'']))"
    by (simp add: recorded_def)
  from single_overlap_extends_or_keeps [OF k1 h2, where e = offline_env
      and hasChanges = False and st = initial_state] k2
  have "reconcile_cluster offline_env [''C'', ''A'', ''B''] (?L, False, initial_state)
      = (?L, False, initial_state)"
    by (cases "reconcile_cluster offline_env [''C'', ''A'', ''B''] (?L, False, initial_state)") auto
  ultimately show ?thesis using h1 h2 h3 h4 k1 k2 by blast
qed

section \<open>The fallback name\<close>

lemma floor_scaled_less:
  assumes "0 \<le> r" "r < 1" "0 < n"
  shows "floor_scaled r n < n"
proof -
  have "r * real n < real n" using assms by simp
  then have "\<lfloor>r * real n\<rfloor> < int n" by (simp add: floor_less_iff)
  moreover have "0 \<le> \<lfloor>r * real n\<rfloor>" using assms by simp
  ultimately show ?thesis by (simp add: floor_scaled_def nat_less_iff)
qed

lemma fallback_name_fst:
  "fst (fallback_name e st) =
     prefixes ! floor_scaled (math_random e (random_calls st)) (length prefixes) @ '' '' @
     roots ! floor_scaled (math_random e (Suc (random_calls st))) (length roots)"
  by (simp add: fallback_name_def Math_random_def)

lemma generateConstellationName_failure:
  assumes "generateContent e (ai_calls st) = Rejected \<or> generateContent e (ai_calls st) = ParseError"
  shows "fst (generateConstellationName e n st) =
     prefixes ! floor_scaled (math_random e (random_calls st)) (length prefixes) @ '' '' @
     roots ! floor_scaled (math_random e (Suc (random_calls st))) (length roots)"
  using assms by (auto simp: generateConstellationName_def Let_def fallback_name_fst)

text \<open>
  Claim C6, as the code has it. When the request to the naming service rejects or its
  answer does not parse, \<open>generateConstellationName\<close> returns a name: one word of the
  fixed pool of prefixes, a space, one word of the fixed pool of roots, each picked by a
  draw of \<open>Math.random\<close> (in \<open>[0, 1)\<close>), so the name is not empty; and a cluster
  without overlap still gets its constellation, with its identity from \<open>uuidv4\<close>, that
  name, and the reward \<open>50 + 10 \<times> size\<close> starlight and \<open>20 + 5 \<times> size\<close> data.
\<close>

theorem naming_failure_still_creates:
  assumes fail: "generateContent e (ai_calls st) = Rejected \<or>
                 generateContent e (ai_calls st) = ParseError"
    and draw1: "0 \<le> math_random e (random_calls st)" "math_random e (random_calls st) < 1"
    and draw2: "0 \<le> math_random e (Suc (random_calls st))"
               "math_random e (Suc (random_calls st)) < 1"
    and no_overlap: "\<forall>c \<in> set updated. set (starIds c) \<inter> set cluster = {}"
  shows "\<exists>p \<in> set prefixes. \<exists>r \<in> set roots.
           (\<forall>starCount. fst (generateConstellationName e starCount st) = p @ '' '' @ r) \<and>
           p @ '' '' @ r \<noteq> [] \<and>
           (case reconcile_cluster e cluster (updated, hasChanges, st) of
              (updated', hasChanges', st') \<Rightarrow>
                updated' = updated @
                  [\<lparr>cid = uuid_stream e (uuid_calls st), cname = p @ '' '' @ r,
                    starIds = cluster, discoveredAt = clock e (now_calls st)\<rparr>] \<and>
                resources st' =
                  \<lparr>starlight = starlight (resources st) + (50 + 10 * real (length cluster)),
                   data = data (resources st) + (20 + 5 * real (length cluster)),
                   focus = focus (resources st)\<rparr>)"
proof -
  let ?p = "prefixes ! floor_scaled (math_random e (random_calls st)) (length prefixes)"
  let ?r = "roots ! floor_scaled (math_random e (Suc (random_calls st))) (length roots)"
  have "floor_scaled (math_random e (random_calls st)) (length prefixes) < length prefixes"
    using draw1 by (intro floor_scaled_less) (simp_all add: prefixes_def)
  then have p: "?p \<in> set prefixes" by (rule nth_mem)
  have "floor_scaled (math_random e (Suc (random_calls st))) (length roots) < length roots"
    using draw2 by (intro floor_scaled_less) (simp_all add: roots_def)
  then have r: "?r \<in> set roots" by (rule nth_mem)
  have name: "fst (generateConstellationName e starCount st) = ?p @ '' '' @ ?r" for starCount
    using fail by (rule generateConstellationName_failure)
  obtain updated' hasChanges' st' where
    rc: "reconcile_cluster e cluster (updated, hasChanges, st) = (updated', hasChanges', st')"
    by (metis prod_cases3)
  from no_overlap have "filter (overlapping cluster) updated = []"
    by (simp add: no_overlaps_iff)
  with rc have "create_constellation e cluster (updated, hasChanges, st)
      = (updated', hasChanges', st')"
    by (simp add: reconcile_cluster_def)
  note c = create_constellation_result [OF this]
  have "updated' = updated @
          [\<lparr>cid = uuid_stream e (uuid_calls st), cname = ?p @ '' '' @ ?r,
            starIds = cluster, discoveredAt = clock e (now_calls st)\<rparr>]"
    using c name by simp
  moreover have "resources st' =
      \<lparr>starlight = starlight (resources st) + (50 + 10 * real (length cluster)),
       data = data (resources st) + (20 + 5 * real (length cluster)),
       focus = focus (resources st)\<rparr>"
    using c by (simp add: rewardStarlight_def rewardData_def)
  ultimately show ?thesis
    using p r name unfolding rc by (intro bexI [of _ ?p] bexI [of _ ?r]) simp_all
qed

theorem naming_failure_still_creates_witness:
  "generateContent offline_env (ai_calls initial_state) = Rejected \<and>
   0 \<le> math_random offline_env (random_calls initial_state) \<and>
   math_random offline_env (random_calls initial_state) < 1 \<and>
   0 \<le> math_random offline_env (Suc (random_calls initial_state)) \<and>
   math_random offline_env (Suc (random_calls initial_state)) < 1 \<and>
   set (starIds (recorded ''id'' [''D'', ''E'', ''F''])) \<inter> set [''A'', ''C'', ''B''] = {} \<and>
   (\<exists>p \<in> set prefixes. \<exists>r \<in> set roots.
      fst (generateConstellationName offline_env 3 initial_state) = p @ '' '' @ r \<and>
      fst (reconcile_cluster offline_env [''A'', ''C'', ''B'']
             ([recorded ''id'' [''D'', ''E'', ''F'']], False, initial_state)) =
        [recorded ''id'' [''D'', ''E'', ''F''],
         \<lparr>cid = ''u'', cname = p @ '' '' @ r, starIds = [''A'', ''C'', ''B''],
          discoveredAt = 1000\<rparr>] \<and>
      resources (snd (snd (reconcile_cluster offline_env [''A'', ''C'', ''B'']
             ([recorded ''id'' [''D'', ''E'', ''F'']], False, initial_state)))) =
        \<lparr>starlight = 80, data = 35, focus = 100\<rparr>)"
proof -
  have f: "generateContent offline_env (ai_calls initial_state) = Rejected"
    by (simp add: offline_env_def)
  have d: "0 \<le> math_random offline_env (random_calls initial_state)"
    "math_random offline_env (random_calls initial_state) < 1"
    "0 \<le> math_random offline_env (Suc (random_calls initial_state))"
    "math_random offline_env (Suc (random_calls initial_state)) < 1"
    by (simp_all add: offline_env_def)
  have h: "\<forall>c \<in> set [recorded ''id'' [''D'', ''E'', ''F'']].
       set (starIds c) \<inter> set [''A'', ''C'', ''B''] = {}"
    by (simp add: recorded_def)
  have s: "uuid_calls initial_state = 0" "now_calls initial_state = 0"
    "resources initial_state = \<lparr>starlight = 0, data = 0, focus = 100\<rparr>"
    by (simp_all add: initial_state_def INITIAL_RESOURCES_def)
  have w: "uuid_stream offline_env 0 = ''u''" "clock offline_env 0 = 1000"
    by (simp_all add: offline_env_def)
  from naming_failure_still_creates [OF disjI1 [OF f] d h, of False]
  have "\<exists>p \<in> set prefixes. \<exists>r \<in> set roots.
      fst (generateConstellationName offline_env 3 initial_state) = p @ '' '' @ r \<and>
      fst (reconcile_cluster offline_env [''A'', ''C'', ''B'']
             ([recorded ''id'' [''D'', ''E'', ''F'']], False, initial_state)) =
        [recorded ''id'' [''D'', ''E'', ''F''],
         \<lparr>cid = ''u'', cname = p @ '' '' @ r, starIds = [''A'', ''C'', ''B''],
          discoveredAt = 1000\<rparr>] \<and>
      resources (snd (snd (reconcile_cluster offline_env [''A'', ''C'', ''B'']
             ([recorded ''id'' [''D'', ''E'', ''F'']], False, initial_state)))) =
        \<lparr>starlight = 80, data = 35, focus = 100\<rparr>"
    using s w by (auto simp: case_prod_beta)
  with f d h show ?thesis by simp
qed

text \<open>
  The fallback name is not a function of the star count: two worlds where the service
  rejects, which differ only in the draws of \<open>Math.random\<close>, name a cluster of three
  differently.
\<close>

theorem fallback_name_not_deterministic:
  "generateContent offline_env (ai_calls initial_state) = Rejected \<and>
   generateContent offline_env_zero (ai_calls initial_state) = Rejected \<and>
   fst (generateConstellationName offline_env 3 initial_state) = ''The Great Cross'' \<and>
   fst (generateConstellationName offline_env_zero 3 initial_state) = ''Alpha Hydra'' \<and>
   fst (generateConstellationName offline_env 3 initial_state) \<noteq>
   fst (generateConstellationName offline_env_zero 3 initial_state)"
  by (simp add: generateConstellationName_def fallback_name_def Math_random_def offline_env_def
      offline_env_zero_def initial_state_def floor_scaled_def prefixes_def roots_def)

section \<open>Rounding to the nearest double\<close>

text \<open>
  Rounding to the nearest double gives less than 180 exactly for the numbers below the
  midpoint of 180 and the double before it, which is \<open>180 - 1 / 2 ^ 46\<close>; and a number
  with at most 53 significant bits is a double, rounded to itself.
\<close>

lemma round_even_bounds: "\<lfloor>y\<rfloor> \<le> round_even y \<and> round_even y \<le> \<lfloor>y\<rfloor> + 1"
  by (simp add: round_even_def Let_def)

lemma round_even_less_even:
  assumes "even N"
  shows "round_even y < N \<longleftrightarrow> y < of_int N - 1 / 2"
proof -
  define f where "f = \<lfloor>y\<rfloor>"
  have f: "of_int f \<le> y" "y < of_int f + 1" unfolding f_def by linarith+
  consider "y - of_int f < 1 / 2" | "1 / 2 < y - of_int f" | "y - of_int f = 1 / 2" by linarith
  then show ?thesis
  proof cases
    case 1
    then have r: "round_even y = f" by (simp add: round_even_def f_def)
    show ?thesis
    proof
      assume "round_even y < N"
      then have "f \<le> N - 1" using r by simp
      then have "of_int f \<le> (of_int N :: real) - 1" by (metis of_int_1 of_int_diff of_int_le_iff)
      with 1 show "y < of_int N - 1 / 2" by linarith
    next
      assume "y < of_int N - 1 / 2"
      with f have "(of_int f :: real) < of_int N" by linarith
      then show "round_even y < N" using r by simp
    qed
  next
    case 2
    then have r: "round_even y = f + 1" by (simp add: round_even_def f_def)
    show ?thesis
    proof
      assume "round_even y < N"
      then have "f + 1 \<le> N - 1" using r by simp
      then have "of_int f + 1 \<le> (of_int N :: real) - 1"
        by (metis of_int_1 of_int_diff of_int_add of_int_le_iff)
      with f show "y < of_int N - 1 / 2" by linarith
    next
      assume "y < of_int N - 1 / 2"
      with 2 have "(of_int f :: real) + 1 < of_int N" by linarith
      then have "(of_int (f + 1) :: real) < of_int N" by simp
      then have "f + 1 < N" by (simp only: of_int_less_iff)
      then show "round_even y < N" using r by simp
    qed
  next
    case 3
    then have r: "round_even y = (if even f then f else f + 1)"
      by (simp add: round_even_def f_def)
    have y: "y = of_int f + 1 / 2" using 3 by simp
    have "y < of_int N - 1 / 2 \<longleftrightarrow> (of_int (f + 1) :: real) < of_int N"
      unfolding y by (simp add: algebra_simps)
    also have "\<dots> \<longleftrightarrow> f + 1 < N" by (simp only: of_int_less_iff)
    also have "\<dots> \<longleftrightarrow> round_even y < N"
      using assms unfolding r by presburger
    finally show ?thesis by simp
  qed
qed

lemma round_double_less_180:
  assumes "0 \<le> x"
  shows "round_double x < 180 \<longleftrightarrow> x < 180 - 1 / 2 ^ 46"
proof (cases "x = 0")
  case True
  then show ?thesis by (simp add: round_double_def)
next
  case False
  with assms have pos: "0 < x" by simp
  define k where "k = \<lfloor>log 2 x\<rfloor>"
  define u :: real where "u = 2 powr of_int (k - 52)"
  have rd: "round_double x = u * of_int (round_even (x / u))"
    using pos by (simp add: round_double_def u_def k_def Let_def)
  have kx: "2 powr of_int k \<le> x" "x < 2 powr of_int (k + 1)"
    using floor_log_eq_powr_iff [of x 2 k] pos by (simp_all add: k_def)
  have upos: "0 < u" by (simp add: u_def)
  have p52: "(2 :: real) powr 52 = 2 ^ 52" and p53: "(2 :: real) powr 53 = 2 ^ 53"
    by (simp_all add: powr_numeral)
  have u52: "u * 2 ^ 52 = 2 powr of_int k"
  proof -
    have "u * 2 powr 52 = 2 powr (of_int (k - 52) + 52)"
      unfolding u_def by (rule powr_add [symmetric])
    also have "of_int (k - 52) + 52 = (of_int k :: real)" by simp
    finally show ?thesis by (simp only: p52)
  qed
  have u53: "u * 2 ^ 53 = 2 powr of_int (k + 1)"
  proof -
    have "u * 2 powr 53 = 2 powr (of_int (k - 52) + 53)"
      unfolding u_def by (rule powr_add [symmetric])
    also have "of_int (k - 52) + 53 = (of_int (k + 1) :: real)" by simp
    finally show ?thesis by (simp only: p53)
  qed
  have ylo: "2 ^ 52 \<le> x / u"
    using kx(1) upos u52 by (simp add: le_divide_eq mult.commute)
  have yhi: "x / u < 2 ^ 53"
    using kx(2) upos u53 by (simp add: divide_less_eq mult.commute)
  have flo: "(2 ^ 52 :: int) \<le> \<lfloor>x / u\<rfloor>"
    using ylo by (simp add: le_floor_iff)
  have fhi: "\<lfloor>x / u\<rfloor> + 1 \<le> (2 ^ 53 :: int)"
    using yhi by (simp add: floor_less_iff)
  have lo: "2 powr of_int k \<le> round_double x"
  proof -
    have "(2 ^ 52 :: int) \<le> round_even (x / u)" using flo round_even_bounds [of "x / u"] by linarith
    then have "(2 ^ 52 :: real) \<le> of_int (round_even (x / u))"
      by (metis of_int_le_iff of_int_numeral of_int_power)
    then have "u * 2 ^ 52 \<le> u * of_int (round_even (x / u))"
      using upos by (simp only: mult_le_cancel_left_pos)
    then show ?thesis by (simp only: rd u52)
  qed
  have hi: "round_double x \<le> 2 powr of_int (k + 1)"
  proof -
    have "round_even (x / u) \<le> (2 ^ 53 :: int)" using fhi round_even_bounds [of "x / u"] by linarith
    then have "of_int (round_even (x / u)) \<le> (2 ^ 53 :: real)"
      by (metis of_int_le_iff of_int_numeral of_int_power)
    then have "u * of_int (round_even (x / u)) \<le> u * 2 ^ 53"
      using upos by (simp only: mult_le_cancel_left_pos)
    then show ?thesis by (simp only: rd u53)
  qed
  consider "k \<le> 6" | "k \<ge> 8" | "k = 7" by linarith
  then show ?thesis
  proof cases
    case 1
    then have "(2 :: real) powr of_int (k + 1) \<le> 2 powr 7" by (intro powr_mono) simp_all
    also have "\<dots> = (128 :: real)" by (simp add: powr_numeral)
    finally have "2 powr of_int (k + 1) \<le> (128 :: real)" .
    with hi kx(2) show ?thesis by simp
  next
    case 2
    then have "(2 :: real) powr 8 \<le> 2 powr of_int k" by (intro powr_mono) simp_all
    moreover have "(2 :: real) powr 8 = 256" by (simp add: powr_numeral)
    ultimately have "(256 :: real) \<le> 2 powr of_int k" by simp
    with lo kx(1) show ?thesis by simp
  next
    case 3
    have "u = 2 powr (- 45)" by (simp add: u_def 3)
    also have "\<dots> = inverse (2 powr 45)" by (rule powr_minus)
    also have "(2::real) powr 45 = 2 ^ 45" by (rule powr_numeral) simp
    finally have u: "u = 1 / 2 ^ 45" by (simp only: inverse_eq_divide)
    have e: "even (180 * 2 ^ 45 :: int)" by simp
    have "round_double x < 180 \<longleftrightarrow> of_int (round_even (x * 2 ^ 45)) < (180 * 2 ^ 45 :: real)"
      by (simp add: rd u divide_less_eq)
    also have "\<dots> \<longleftrightarrow> round_even (x * 2 ^ 45) < 180 * 2 ^ 45"
      by (metis of_int_less_iff of_int_numeral of_int_power of_int_mult)
    also have "\<dots> \<longleftrightarrow> x * 2 ^ 45 < of_int (180 * 2 ^ 45) - 1 / 2"
      by (rule round_even_less_even [OF e])
    also have "\<dots> \<longleftrightarrow> x < 180 - 1 / 2 ^ 46"
      by (simp add: field_simps)
    finally show ?thesis .
  qed
qed

lemma round_even_of_int: "round_even (of_int n) = n"
  by (simp add: round_even_def)

lemma round_double_exact:
  assumes m: "\<bar>m\<bar> < 2 ^ 53"
  shows "round_double (of_int m * 2 powr of_int j) = of_int m * 2 powr of_int j"
proof (cases "m = 0")
  case True
  then show ?thesis by (simp add: round_double_def)
next
  case False
  define x :: real where "x = of_int m * 2 powr of_int j"
  define k where "k = \<lfloor>log 2 \<bar>x\<bar>\<rfloor>"
  define u :: real where "u = 2 powr of_int (k - 52)"
  have x0: "x \<noteq> 0" using False by (simp add: x_def)
  have rd: "round_double x = u * of_int (round_even (x / u))"
    using x0 by (simp add: round_double_def u_def k_def Let_def)
  have ax: "\<bar>x\<bar> = of_int \<bar>m\<bar> * 2 powr of_int j" by (simp add: x_def abs_mult)
  have "of_int \<bar>m\<bar> < (2 :: real) ^ 53"
    using m by (metis of_int_less_iff of_int_numeral of_int_power)
  then have "\<bar>x\<bar> < 2 ^ 53 * 2 powr of_int j" unfolding ax by simp
  also have "(2 :: real) ^ 53 = 2 powr of_int 53" by (simp add: powr_numeral)
  also have "2 powr of_int 53 * 2 powr of_int j = (2 :: real) powr of_int (53 + j)"
    by (simp add: powr_add)
  finally have up: "\<bar>x\<bar> < 2 powr of_int (53 + j)" .
  have "0 < \<bar>x\<bar>" using x0 by simp
  from floor_log_eq_powr_iff [of "\<bar>x\<bar>" 2 k] this have "2 powr of_int k \<le> \<bar>x\<bar>"
    by (simp add: k_def)
  then have "(2 :: real) powr of_int k < 2 powr of_int (53 + j)" using up by (rule le_less_trans)
  then have "(of_int k :: real) < of_int (53 + j)" by (simp only: powr_less_cancel_iff one_less_numeral_iff num.simps semiring_norm)
  then have "k < 53 + j" by (simp only: of_int_less_iff)
  define d where "d = nat (j - (k - 52))"
  have d: "j = (k - 52) + int d" using \<open>k < 53 + j\<close> by (simp add: d_def)
  have pj: "(2 :: real) powr of_int j = u * 2 ^ d"
    unfolding d u_def by (simp add: powr_add powr_realpow)
  have u0: "0 < u" by (simp add: u_def)
  have "x / u = of_int (m * 2 ^ d)" using u0 by (simp add: x_def pj)
  then have "round_even (x / u) = m * 2 ^ d" by (simp only: round_even_of_int)
  then have "round_double x = u * of_int (m * 2 ^ d)" using rd by simp
  also have "\<dots> = x" by (simp add: x_def pj)
  finally show ?thesis by (simp add: x_def)
qed

lemma round_double_dyadic:
  assumes "\<bar>m\<bar> < 2 ^ 53"
  shows "round_double (of_int m / 2 ^ n) = of_int m / 2 ^ n"
proof -
  have "(2 :: real) powr of_int (- int n) = 1 / 2 ^ n"
    by (simp add: powr_minus powr_realpow inverse_eq_divide)
  with round_double_exact [OF assms, of "- int n"] show ?thesis by simp
qed

lemma double_sub_Ints:
  assumes "x \<in> \<int>" "y \<in> \<int>" "\<bar>x - y\<bar> < 2 ^ 53"
  shows "double_sub x y = x - y"
proof -
  from assms(1,2) obtain a b where ab: "x = of_int a" "y = of_int b" by (auto elim!: Ints_cases)
  with assms(3) have "of_int \<bar>a - b\<bar> < (2 :: real) ^ 53" by simp
  then have "\<bar>a - b\<bar> < 2 ^ 53"
    by (metis of_int_less_iff of_int_numeral of_int_power)
  from round_double_exact [OF this, of 0] show ?thesis by (simp add: double_sub_def ab)
qed

lemma hypot_nearest_less:
  "hypot_nearest a b < 180 \<longleftrightarrow> sqrt (a\<^sup>2 + b\<^sup>2) < 180 - 1 / 2 ^ 46"
  unfolding hypot_nearest_def by (rule round_double_less_180) simp

lemma hypot_nearest_less_squares:
  "hypot_nearest a b < 180 \<longleftrightarrow> a\<^sup>2 + b\<^sup>2 < (180 - 1 / 2 ^ 46)\<^sup>2"
proof -
  have c: "(0 :: real) \<le> 180 - 1 / 2 ^ 46" by simp
  have s: "sqrt ((180 - 1 / 2 ^ 46)\<^sup>2) = 180 - 1 / 2 ^ 46" by (rule real_sqrt_unique [OF refl c])
  from real_sqrt_less_iff [of "a\<^sup>2 + b\<^sup>2" "(180 - 1 / 2 ^ 46)\<^sup>2"]
  have "sqrt (a\<^sup>2 + b\<^sup>2) < 180 - 1 / 2 ^ 46 \<longleftrightarrow> a\<^sup>2 + b\<^sup>2 < (180 - 1 / 2 ^ 46)\<^sup>2"
    unfolding s .
  then show ?thesis by (simp only: hypot_nearest_less)
qed

section \<open>The adjacency map is the proximity graph\<close>

lemma adjacent_sym: "adjacent s t \<longleftrightarrow> adjacent t s"
  by (simp add: adjacent_def power2_commute)

lemma adjacent_squares:
  "adjacent s t \<longleftrightarrow>
     (coord_x (coordinates s) - coord_x (coordinates t))\<^sup>2 +
     (coord_y (coordinates s) - coord_y (coordinates t))\<^sup>2 < 32400"
proof -
  have "sqrt a < 180 \<longleftrightarrow> a < 32400" for a :: real
    using real_sqrt_less_iff [of a 32400] by simp
  then show ?thesis by (simp add: adjacent_def)
qed

lemma set_later_pairs:
  "set (later_pairs xs) = {(xs ! i, xs ! j) | i j. i < j \<and> j < length xs}"
proof (induction xs)
  case Nil
  then show ?case by simp
next
  case (Cons x xs)
  have "{((x # xs) ! i, (x # xs) ! j) | i j. i < j \<and> j < length (x # xs)}
      = {(x, xs ! j) | j. j < length xs} \<union> {(xs ! i, xs ! j) | i j. i < j \<and> j < length xs}"
    (is "?L = ?A \<union> ?B")
  proof (intro equalityI subsetI)
    fix p assume "p \<in> ?L"
    then obtain i j where p: "p = ((x # xs) ! i, (x # xs) ! j)" and ij: "i < j" "j < length (x # xs)"
      by auto
    from ij obtain j' where j': "j = Suc j'" by (cases j) auto
    show "p \<in> ?A \<union> ?B"
    proof (cases i)
      case 0
      with p j' ij show ?thesis by auto
    next
      case (Suc i')
      with p j' ij have "p = (xs ! i', xs ! j')" "i' < j'" "j' < length xs" by auto
      then show ?thesis by blast
    qed
  next
    fix p assume "p \<in> ?A \<union> ?B"
    then show "p \<in> ?L"
    proof
      assume "p \<in> ?A"
      then obtain j where "p = (x, xs ! j)" "j < length xs" by auto
      then have "p = ((x # xs) ! 0, (x # xs) ! Suc j)" "0 < Suc j" "Suc j < length (x # xs)"
        by auto
      then show ?thesis by blast
    next
      assume "p \<in> ?B"
      then obtain i j where "p = (xs ! i, xs ! j)" "i < j" "j < length xs" by auto
      then have "p = ((x # xs) ! Suc i, (x # xs) ! Suc j)" "Suc i < Suc j"
        "Suc j < length (x # xs)"
        by auto
      then show ?thesis by blast
    qed
  qed
  moreover have "set (map (Pair x) xs) = {(x, xs ! j) | j. j < length xs}"
    by (force simp: in_set_conv_nth)
  ultimately show ?case using Cons.IH by simp
qed

lemma map_of_adj_set: "map_of (adj_set k v adj) = (map_of adj)(k \<mapsto> v)"
  by (simp add: adj_set_def update_conv')

lemma dom_adj_push: "dom (map_of (adj_push a b adj)) = dom (map_of adj)"
  by (auto simp: adj_push_def map_of_adj_set split: option.splits)

lemma edges_adj_push:
  "a \<in> dom (map_of adj) \<Longrightarrow> edges (adj_push a b adj) = insert (a, b) (edges adj)"
  by (auto simp: edges_def adj_get_def adj_push_def map_of_adj_set split: option.splits if_splits)

lemma dom_link_later: "dom (map_of (link_later e s1 rest adj)) = dom (map_of adj)"
  by (induction rest arbitrary: adj) (simp_all add: dom_adj_push)

lemma edges_link_later:
  assumes "body_id s1 \<in> dom (map_of adj)" "body_id ` set rest \<subseteq> dom (map_of adj)"
  shows "edges (link_later e s1 rest adj) =
         edges adj \<union> {(body_id s1, body_id s2) | s2. s2 \<in> set rest \<and> linked e s1 s2}
                   \<union> {(body_id s2, body_id s1) | s2. s2 \<in> set rest \<and> linked e s1 s2}"
  using assms
proof (induction rest arbitrary: adj)
  case Nil
  then show ?case by simp
next
  case (Cons s2 rest)
  let ?adj' = "if dist_bodies e s1 s2 < MAX_DIST
        then adj_push (body_id s2) (body_id s1) (adj_push (body_id s1) (body_id s2) adj)
        else adj"
  have d: "dom (map_of ?adj') = dom (map_of adj)" by (simp add: dom_adj_push)
  have eq: "edges ?adj' = (if linked e s1 s2
      then insert (body_id s2, body_id s1) (insert (body_id s1, body_id s2) (edges adj))
      else edges adj)"
    using Cons.prems by (simp add: linked_def edges_adj_push dom_adj_push)
  have "edges (link_later e s1 (s2 # rest) adj) = edges (link_later e s1 rest ?adj')" by simp
  also have "\<dots> = edges ?adj' \<union> {(body_id s1, body_id s2) | s2. s2 \<in> set rest \<and> linked e s1 s2}
                   \<union> {(body_id s2, body_id s1) | s2. s2 \<in> set rest \<and> linked e s1 s2}"
    using Cons.prems by (intro Cons.IH) (simp_all only: d, simp_all)
  finally show ?case unfolding eq by auto
qed

lemma dom_link_all: "dom (map_of (link_all e currentStars adj)) = dom (map_of adj)"
  by (induction currentStars arbitrary: adj) (simp_all add: dom_link_later)

lemma edges_link_all:
  assumes "body_id ` set currentStars \<subseteq> dom (map_of adj)"
  shows "edges (link_all e currentStars adj) =
         edges adj \<union> {(body_id s, body_id t) | s t. (s, t) \<in> set (later_pairs currentStars) \<and> linked e s t}
                   \<union> {(body_id t, body_id s) | s t. (s, t) \<in> set (later_pairs currentStars) \<and> linked e s t}"
  using assms
proof (induction currentStars arbitrary: adj)
  case Nil
  then show ?case by simp
next
  case (Cons s1 rest)
  have "edges (link_all e (s1 # rest) adj) = edges (link_all e rest (link_later e s1 rest adj))"
    by simp
  also have "\<dots> = edges (link_later e s1 rest adj)
       \<union> {(body_id s, body_id t) | s t. (s, t) \<in> set (later_pairs rest) \<and> linked e s t}
       \<union> {(body_id t, body_id s) | s t. (s, t) \<in> set (later_pairs rest) \<and> linked e s t}"
    using Cons.prems by (intro Cons.IH) (simp add: dom_link_later)
  also have "edges (link_later e s1 rest adj) =
         edges adj \<union> {(body_id s1, body_id s2) | s2. s2 \<in> set rest \<and> linked e s1 s2}
                   \<union> {(body_id s2, body_id s1) | s2. s2 \<in> set rest \<and> linked e s1 s2}"
    using Cons.prems by (intro edges_link_later) simp_all
  finally have eq: "edges (link_all e (s1 # rest) adj) =
      edges adj \<union> {(body_id s1, body_id s2) | s2. s2 \<in> set rest \<and> linked e s1 s2}
                \<union> {(body_id s2, body_id s1) | s2. s2 \<in> set rest \<and> linked e s1 s2}
       \<union> {(body_id s, body_id t) | s t. (s, t) \<in> set (later_pairs rest) \<and> linked e s t}
       \<union> {(body_id t, body_id s) | s t. (s, t) \<in> set (later_pairs rest) \<and> linked e s t}" .
  have a: "{(body_id s, body_id t) | s t. (s, t) \<in> set (later_pairs (s1 # rest)) \<and> linked e s t}
      = {(body_id s1, body_id s2) | s2. s2 \<in> set rest \<and> linked e s1 s2}
        \<union> {(body_id s, body_id t) | s t. (s, t) \<in> set (later_pairs rest) \<and> linked e s t}"
    by auto
  have b: "{(body_id t, body_id s) | s t. (s, t) \<in> set (later_pairs (s1 # rest)) \<and> linked e s t}
      = {(body_id s2, body_id s1) | s2. s2 \<in> set rest \<and> linked e s1 s2}
        \<union> {(body_id t, body_id s) | s t. (s, t) \<in> set (later_pairs rest) \<and> linked e s t}"
    by auto
  show ?case unfolding eq a b by (simp add: Un_ac)
qed

lemma initial_adjacency:
  "dom (map_of (foldl (\<lambda>adj s. adj_set (body_id s) [] adj) adj0 currentStars))
     = dom (map_of adj0) \<union> body_id ` set currentStars"
  "edges adj0 = {} \<Longrightarrow> edges (foldl (\<lambda>adj s. adj_set (body_id s) [] adj) adj0 currentStars) = {}"
proof (induction currentStars arbitrary: adj0)
  case Nil
  {
    case 1
    then show ?case by simp
  next
    case 2
    then show ?case by simp
  }
next
  case (Cons s rest)
  {
    case 1
    show ?case by (auto simp: Cons.IH(1) map_of_adj_set)
  next
    case 2
    then have "edges (adj_set (body_id s) [] adj0) = {}"
      by (auto simp: edges_def adj_get_def map_of_adj_set split: option.splits if_splits)
    then show ?case by (simp add: Cons.IH(2))
  }
qed

lemma edges_build_adjacency: "edges (build_adjacency e currentStars) = linked_ids e currentStars"
proof -
  let ?adj0 = "foldl (\<lambda>adj s. adj_set (body_id s) [] adj) [] currentStars"
  have "edges [] = {}" by (simp add: edges_def adj_get_def)
  then have e0: "edges ?adj0 = {}" by (rule initial_adjacency(2))
  have d0: "body_id ` set currentStars \<subseteq> dom (map_of ?adj0)"
    by (simp add: initial_adjacency(1))
  have "edges (build_adjacency e currentStars) =
      {(body_id s, body_id t) | s t. (s, t) \<in> set (later_pairs currentStars) \<and> linked e s t}
    \<union> {(body_id t, body_id s) | s t. (s, t) \<in> set (later_pairs currentStars) \<and> linked e s t}"
    unfolding build_adjacency_def edges_link_all [OF d0] e0 by simp
  also have "\<dots> = linked_ids e currentStars"
  proof (intro equalityI subsetI)
    fix p assume "p \<in> {(body_id s, body_id t) | s t. (s, t) \<in> set (later_pairs currentStars) \<and> linked e s t}
    \<union> {(body_id t, body_id s) | s t. (s, t) \<in> set (later_pairs currentStars) \<and> linked e s t}"
    then obtain s t where st: "(s, t) \<in> set (later_pairs currentStars)" "linked e s t"
      and p: "p = (body_id s, body_id t) \<or> p = (body_id t, body_id s)" by auto
    from st(1) obtain i j where ij: "s = currentStars ! i" "t = currentStars ! j" "i < j"
      "j < length currentStars"
      by (auto simp: set_later_pairs)
    from p ij st(2) show "p \<in> linked_ids e currentStars"
      unfolding linked_ids_def by (intro CollectI) (cases p, auto)
  next
    fix p assume "p \<in> linked_ids e currentStars"
    then obtain i j where ij: "i < j" "j < length currentStars"
      "linked e (currentStars ! i) (currentStars ! j)"
      and p: "p = (body_id (currentStars ! i), body_id (currentStars ! j)) \<or>
              p = (body_id (currentStars ! j), body_id (currentStars ! i))"
      by (auto simp: linked_ids_def)
    from ij have "(currentStars ! i, currentStars ! j) \<in> set (later_pairs currentStars)"
      by (auto simp: set_later_pairs)
    with ij p
    show "p \<in> {(body_id s, body_id t) | s t. (s, t) \<in> set (later_pairs currentStars) \<and> linked e s t}
    \<union> {(body_id t, body_id s) | s t. (s, t) \<in> set (later_pairs currentStars) \<and> linked e s t}"
      by blast
  qed
  finally show ?thesis .
qed

lemma sym_linked_ids: "sym (linked_ids e currentStars)"
  by (rule symI) (auto simp: linked_ids_def)

section \<open>The traversal\<close>

lemma fold_visit_neighbor:
  "fold visit_neighbor ns (visited, stack) = (visited', stack') \<Longrightarrow>
   \<exists>new. stack' = new @ stack \<and> distinct new \<and> set new = set ns - visited \<and>
         visited' = visited \<union> set ns"
proof (induction ns arbitrary: visited stack)
  case Nil
  then show ?case by simp
next
  case (Cons n ns)
  show ?case
  proof (cases "n \<in> visited")
    case True
    with Cons.prems have "fold visit_neighbor ns (visited, stack) = (visited', stack')" by simp
    from Cons.IH [OF this] True show ?thesis by auto
  next
    case False
    with Cons.prems
    have "fold visit_neighbor ns (insert n visited, n # stack) = (visited', stack')" by simp
    from Cons.IH [OF this] obtain new where new: "stack' = new @ n # stack" "distinct new"
      "set new = set ns - insert n visited" "visited' = insert n visited \<union> set ns"
      by auto
    show ?thesis
    proof (intro exI [of _ "new @ [n]"] conjI)
      show "stack' = (new @ [n]) @ stack" using new by simp
      show "distinct (new @ [n])" using new by auto
      show "set (new @ [n]) = set (n # ns) - visited" using new False by auto
      show "visited' = visited \<union> set (n # ns)" using new by auto
    qed
  qed
qed

lemma traverse_members:
  assumes "traverse adj stack visited cluster = (visited', cluster')"
    and "distinct (stack @ cluster)" and "set stack \<union> set cluster \<subseteq> visited"
  shows "distinct cluster' \<and> visited \<subseteq> visited' \<and>
         set cluster' = set cluster \<union> set stack \<union> (visited' - visited)"
  using assms
proof (induction adj stack visited cluster rule: traverse.induct)
  case (1 adj visited cluster)
  then show ?case by auto
next
  case (2 adj currentId stack visited cluster)
  obtain v1 s1 where f: "fold visit_neighbor (adj_get adj currentId) (visited, stack) = (v1, s1)"
    by (cases "fold visit_neighbor (adj_get adj currentId) (visited, stack)")
  from fold_visit_neighbor [OF f] obtain new where new: "s1 = new @ stack" "distinct new"
      "set new = set (adj_get adj currentId) - visited"
      "v1 = visited \<union> set (adj_get adj currentId)"
    by auto
  from "2.prems"(1) f
  have t: "traverse adj s1 v1 (cluster @ [currentId]) = (visited', cluster')" by simp
  have d: "distinct (s1 @ cluster @ [currentId])"
    using "2.prems"(2,3) new by auto
  have s: "set s1 \<union> set (cluster @ [currentId]) \<subseteq> v1"
    using "2.prems"(3) new by auto
  from "2.IH" [OF f [symmetric] t d s]
  have r: "distinct cluster'" "v1 \<subseteq> visited'"
    "set cluster' = set (cluster @ [currentId]) \<union> set s1 \<union> (visited' - v1)"
    by auto
  have "set cluster' = set cluster \<union> set (currentId # stack) \<union> (visited' - visited)"
    using r(2,3) new "2.prems"(3) by auto
  with r new show ?case by auto
qed

lemma traverse_closed:
  assumes "traverse adj stack visited cluster = (visited', cluster')"
    and "\<And>v. v \<in> set stack \<union> set cluster \<Longrightarrow> P v"
    and "\<And>a b. P a \<Longrightarrow> b \<in> set (adj_get adj a) \<Longrightarrow> P b"
  shows "\<forall>v \<in> set cluster'. P v"
  using assms
proof (induction adj stack visited cluster rule: traverse.induct)
  case (1 adj visited cluster)
  then show ?case by auto
next
  case (2 adj currentId stack visited cluster)
  obtain v1 s1 where f: "fold visit_neighbor (adj_get adj currentId) (visited, stack) = (v1, s1)"
    by (cases "fold visit_neighbor (adj_get adj currentId) (visited, stack)")
  from fold_visit_neighbor [OF f] obtain new where new: "s1 = new @ stack"
      "set new = set (adj_get adj currentId) - visited"
    by auto
  from "2.prems"(1) f
  have t: "traverse adj s1 v1 (cluster @ [currentId]) = (visited', cluster')" by simp
  have c: "P currentId" using "2.prems"(2) by simp
  have p: "P v" if "v \<in> set s1 \<union> set (cluster @ [currentId])" for v
  proof (cases "v \<in> set new")
    case True
    with new have "v \<in> set (adj_get adj currentId)" by simp
    with c show ?thesis by (rule "2.prems"(3))
  next
    case False
    with that new have "v \<in> set (currentId # stack) \<union> set cluster" by auto
    then show ?thesis by (rule "2.prems"(2))
  qed
  show ?case
    by (rule "2.IH" [OF f [symmetric] t p "2.prems"(3)])
qed

text \<open>
  What every cluster of the output is: at least three ids, all reachable from one of
  them; and no id occurs twice, within a cluster or across clusters.
\<close>

lemma collect_clusters_props:
  assumes "distinct (concat clusters)" and "set (concat clusters) \<subseteq> visited"
    and "\<forall>K \<in> set clusters. 3 \<le> length K \<and> (\<exists>a \<in> set K. \<forall>v \<in> set K. (a, v) \<in> (edges adj)\<^sup>*)"
  shows "distinct (concat (collect_clusters adj currentStars visited clusters)) \<and>
         (\<forall>K \<in> set (collect_clusters adj currentStars visited clusters).
            3 \<le> length K \<and> (\<exists>a \<in> set K. \<forall>v \<in> set K. (a, v) \<in> (edges adj)\<^sup>*))"
  using assms
proof (induction currentStars arbitrary: visited clusters)
  case Nil
  then show ?case by simp
next
  case (Cons star rest)
  show ?case
  proof (cases "body_id star \<in> visited")
    case True
    then show ?thesis using Cons.IH [OF Cons.prems] by simp
  next
    case False
    obtain v1 K where t: "traverse adj [body_id star] (insert (body_id star) visited) [] = (v1, K)"
      by (cases "traverse adj [body_id star] (insert (body_id star) visited) []")
    from traverse_members [OF t]
    have m: "distinct K" "insert (body_id star) visited \<subseteq> v1"
      "set K = {body_id star} \<union> (v1 - insert (body_id star) visited)"
      by auto
    have "\<forall>v \<in> set K. (body_id star, v) \<in> (edges adj)\<^sup>*"
    proof (rule traverse_closed [OF t])
      fix v assume "v \<in> set [body_id star] \<union> set []"
      then show "(body_id star, v) \<in> (edges adj)\<^sup>*" by simp
    next
      fix a b assume "(body_id star, a) \<in> (edges adj)\<^sup>*" "b \<in> set (adj_get adj a)"
      then show "(body_id star, b) \<in> (edges adj)\<^sup>*"
        by (auto simp: edges_def intro: rtrancl_into_rtrancl)
    qed
    moreover have "body_id star \<in> set K" using m by simp
    ultimately have q: "\<exists>a \<in> set K. \<forall>v \<in> set K. (a, v) \<in> (edges adj)\<^sup>*" by blast
    let ?clusters = "if length K \<ge> 3 then clusters @ [K] else clusters"
    have k: "set K \<inter> visited = {}" using m False by auto
    have 1: "distinct (concat ?clusters)"
      using Cons.prems(1,2) m(1) k by auto
    have 2: "set (concat ?clusters) \<subseteq> v1"
      using Cons.prems(2) m by auto
    have 3: "\<forall>K \<in> set ?clusters. 3 \<le> length K \<and> (\<exists>a \<in> set K. \<forall>v \<in> set K. (a, v) \<in> (edges adj)\<^sup>*)"
      using Cons.prems(3) q by auto
    have step: "collect_clusters adj (star # rest) visited clusters
        = collect_clusters adj rest v1 ?clusters"
      using False t by (simp del: traverse.simps)
    show ?thesis unfolding step by (rule Cons.IH [OF 1 2 3])
  qed
qed

lemma find_clusters_distinct: "distinct (concat (find_clusters e currentStars))"
  using collect_clusters_props [of "[]" "{}" "build_adjacency e currentStars" currentStars]
  by (simp add: find_clusters_def)

lemma find_clusters_connected:
  assumes "K \<in> set (find_clusters e currentStars)"
  shows "3 \<le> length K" and "distinct K"
    and "a \<in> set K \<Longrightarrow> b \<in> set K \<Longrightarrow> (a, b) \<in> (linked_ids e currentStars)\<^sup>*"
proof -
  from collect_clusters_props [of "[]" "{}" "build_adjacency e currentStars" currentStars] assms
  obtain c where c: "3 \<le> length K" "c \<in> set K"
    "\<forall>v \<in> set K. (c, v) \<in> (linked_ids e currentStars)\<^sup>*"
    by (auto simp: find_clusters_def edges_build_adjacency)
  show "3 \<le> length K" by (rule c)
  from find_clusters_distinct [of e currentStars] assms show "distinct K"
    by (auto simp: distinct_concat_iff)
  assume ab: "a \<in> set K" "b \<in> set K"
  have "sym ((linked_ids e currentStars)\<^sup>*)"
    by (rule sym_rtrancl [OF sym_linked_ids])
  with c(3) ab have "(a, c) \<in> (linked_ids e currentStars)\<^sup>*" by (auto dest: symD)
  moreover from c(3) ab have "(c, b) \<in> (linked_ids e currentStars)\<^sup>*" by auto
  ultimately show "(a, b) \<in> (linked_ids e currentStars)\<^sup>*" by (rule rtrancl_trans)
qed

lemma find_clusters_disjoint:
  assumes "find_clusters e currentStars = pre @ K # post" "K' \<in> set pre \<union> set post"
  shows "set K \<inter> set K' = {}"
  using find_clusters_distinct [of e currentStars] assms by auto

section \<open>Clusters and components\<close>

lemma linked_ids_bodies:
  "(a, b) \<in> linked_ids e currentStars \<Longrightarrow>
   a \<in> body_id ` set currentStars \<and> b \<in> body_id ` set currentStars"
  by (auto simp: linked_ids_def)

lemma component_subset: "component e currentStars a \<subseteq> insert a (body_id ` set currentStars)"
proof
  fix b assume "b \<in> component e currentStars a"
  then have "(a, b) \<in> (linked_ids e currentStars)\<^sup>*" by (simp add: component_def)
  then show "b \<in> insert a (body_id ` set currentStars)"
    by (cases rule: rtranclE) (auto dest: linked_ids_bodies)
qed

lemma finite_component: "finite (component e currentStars a)"
  by (rule finite_subset [OF component_subset]) simp

lemma cluster_subset_component:
  assumes "K \<in> set (find_clusters e currentStars)" "a \<in> set K"
  shows "set K \<subseteq> component e currentStars a"
  using find_clusters_connected(3) [OF assms(1) assms(2)] by (auto simp: component_def)

lemma component_of_cluster_member:
  assumes "K \<in> set (find_clusters e currentStars)" "a \<in> set K"
  shows "3 \<le> card (component e currentStars a)"
proof -
  have "3 \<le> card (set K)"
    using find_clusters_connected(1,2) [OF assms(1)] by (simp add: distinct_card)
  also have "\<dots> \<le> card (component e currentStars a)"
    by (rule card_mono [OF finite_component cluster_subset_component [OF assms]])
  finally show ?thesis .
qed

lemma cluster_ids_are_bodies:
  assumes "K \<in> set (find_clusters e currentStars)"
  shows "set K \<subseteq> body_id ` set currentStars"
proof
  fix a assume a: "a \<in> set K"
  have "1 < card (set K)"
    using find_clusters_connected(1,2) [OF assms] by (simp add: distinct_card)
  then have "\<not> set K \<subseteq> {a}"
    using card_mono [of "{a}" "set K"] by auto
  then obtain b where b: "b \<in> set K" "b \<noteq> a" by auto
  from cluster_subset_component [OF assms b(1)] a
  have "a \<in> component e currentStars b" by auto
  with component_subset [of e currentStars b] b(2) show "a \<in> body_id ` set currentStars" by auto
qed

lemma few_bodies_no_cluster:
  assumes "length currentStars < 3"
  shows "find_clusters e currentStars = []"
proof (rule ccontr)
  assume "find_clusters e currentStars \<noteq> []"
  then obtain K where K: "K \<in> set (find_clusters e currentStars)"
    by (cases "find_clusters e currentStars") auto
  have "3 \<le> card (set K)"
    using find_clusters_connected(1,2) [OF K] by (simp add: distinct_card)
  also have "\<dots> \<le> card (body_id ` set currentStars)"
    by (rule card_mono [OF _ cluster_ids_are_bodies [OF K]]) simp
  also have "\<dots> \<le> card (set currentStars)" by (rule card_image_le) simp
  also have "\<dots> \<le> length currentStars" by (rule card_length)
  finally show False using assms by simp
qed

lemma small_components_no_cluster:
  assumes "\<forall>a. card (component e currentStars a) < 3"
  shows "find_clusters e currentStars = []"
proof (rule ccontr)
  assume "find_clusters e currentStars \<noteq> []"
  then obtain K where K: "K \<in> set (find_clusters e currentStars)"
    by (cases "find_clusters e currentStars") auto
  with find_clusters_connected(1) [OF K] obtain a where "a \<in> set K"
    by (cases K) auto
  from component_of_cluster_member [OF K this] assms show False
    by (simp add: not_less [symmetric])
qed

lemma no_cluster_no_change:
  assumes "length currentStars < 3 \<or> find_clusters e currentStars = []"
  shows "checkForConstellations e currentStars currentConstellations st = st"
  using assms by (auto simp: checkForConstellations_def)

lemma isolated_component:
  assumes "\<forall>b. (a, b) \<notin> linked_ids e currentStars"
  shows "component e currentStars a = {a}"
proof -
  have "b = a" if "(a, b) \<in> (linked_ids e currentStars)\<^sup>*" for b
    using that assms by (auto elim: converse_rtranclE)
  then show ?thesis by (auto simp: component_def)
qed

text \<open>
  Claim C7. Every cluster of the graph-building step has at least three members, all
  different, and lies within the component of each of its members in the graph of the
  links the code makes, which therefore has at least three ids. So an id whose component
  has one or two ids is in no cluster, and neither is an id linked to no id. With fewer
  than three bodies, or when no component
  reaches three ids, there is no cluster at all and the check returns the state as it was
  (same constellations, resources, log, no call to the outside world).
\<close>

theorem clusters_have_three_members:
  "(\<forall>K \<in> set (find_clusters e currentStars).
      3 \<le> length K \<and> distinct K \<and>
      (\<forall>a \<in> set K. set K \<subseteq> component e currentStars a \<and> 3 \<le> card (component e currentStars a))) \<and>
   (\<forall>a. card (component e currentStars a) < 3 \<longrightarrow>
      (\<forall>K \<in> set (find_clusters e currentStars). a \<notin> set K)) \<and>
   (\<forall>a. (\<forall>b. (a, b) \<notin> linked_ids e currentStars) \<longrightarrow>
      (\<forall>K \<in> set (find_clusters e currentStars). a \<notin> set K)) \<and>
   (length currentStars < 3 \<or> (\<forall>a. card (component e currentStars a) < 3) \<longrightarrow>
      find_clusters e currentStars = [] \<and>
      checkForConstellations e currentStars currentConstellations st = st)"
proof (intro conjI ballI allI impI)
  fix K assume K: "K \<in> set (find_clusters e currentStars)"
  show "3 \<le> length K" "distinct K" by (rule find_clusters_connected [OF K])+
  fix a assume a: "a \<in> set K"
  show "set K \<subseteq> component e currentStars a" by (rule cluster_subset_component [OF K a])
  show "3 \<le> card (component e currentStars a)" by (rule component_of_cluster_member [OF K a])
next
  fix a K assume "card (component e currentStars a) < 3" "K \<in> set (find_clusters e currentStars)"
  then show "a \<notin> set K" using component_of_cluster_member [of K e currentStars a] by auto
next
  fix a K assume "\<forall>b. (a, b) \<notin> linked_ids e currentStars"
    and K: "K \<in> set (find_clusters e currentStars)"
  then have "card (component e currentStars a) = 1" by (simp add: isolated_component)
  with K show "a \<notin> set K" using component_of_cluster_member [of K e currentStars a] by auto
next
  assume "length currentStars < 3 \<or> (\<forall>a. card (component e currentStars a) < 3)"
  then show none: "find_clusters e currentStars = []"
    using few_bodies_no_cluster small_components_no_cluster by blast
  then show "checkForConstellations e currentStars currentConstellations st = st"
    using no_cluster_no_change by blast
qed

lemma bodies_path:
  assumes d: "distinct (map body_id currentStars)"
    and r: "(a, b) \<in> (linked_ids e currentStars)\<^sup>*"
  shows "s \<in> set currentStars \<Longrightarrow> t \<in> set currentStars \<Longrightarrow> body_id s = a \<Longrightarrow> body_id t = b
         \<Longrightarrow> (s, t) \<in> (linked_bodies e currentStars)\<^sup>*"
  using r
proof (induction arbitrary: t rule: rtrancl_induct)
  case base
  with d have "s = t" by (auto simp: distinct_map dest: inj_onD)
  then show ?case by simp
next
  case (step b c)
  from step.hyps(2) obtain i j where ij: "i < j" "j < length currentStars"
    "linked e (currentStars ! i) (currentStars ! j)"
    and bc: "b = body_id (currentStars ! i) \<and> c = body_id (currentStars ! j) \<or>
             b = body_id (currentStars ! j) \<and> c = body_id (currentStars ! i)"
    by (auto simp: linked_ids_def)
  from bc obtain p q where pq: "p < length currentStars" "q < length currentStars"
    "b = body_id (currentStars ! p)" "c = body_id (currentStars ! q)"
    "(currentStars ! p, currentStars ! q) \<in> linked_bodies e currentStars"
  proof
    assume "b = body_id (currentStars ! i) \<and> c = body_id (currentStars ! j)"
    moreover have "(currentStars ! i, currentStars ! j) \<in> linked_bodies e currentStars"
      unfolding linked_bodies_def using ij by blast
    ultimately show ?thesis using ij that [of i j] by simp
  next
    assume "b = body_id (currentStars ! j) \<and> c = body_id (currentStars ! i)"
    moreover have "(currentStars ! j, currentStars ! i) \<in> linked_bodies e currentStars"
      unfolding linked_bodies_def using ij by blast
    ultimately show ?thesis using ij that [of j i] by simp
  qed
  have "body_id t = body_id (currentStars ! q)" using step.prems pq by simp
  with d step.prems pq have t: "t = currentStars ! q"
    by (auto simp: distinct_map dest: inj_onD)
  have "(s, currentStars ! p) \<in> (linked_bodies e currentStars)\<^sup>*"
    using step.prems pq by (intro step.IH) auto
  then show ?case using pq(5) unfolding t by (rule rtrancl_into_rtrancl)
qed

lemma linked_nearest:
  assumes "math_hypot e = hypot_nearest"
  shows "linked e s t \<longleftrightarrow>
     sqrt ((double_sub (coord_x (coordinates s)) (coord_x (coordinates t)))\<^sup>2 +
           (double_sub (coord_y (coordinates s)) (coord_y (coordinates t)))\<^sup>2)
       < 180 - 1 / 2 ^ 46"
  by (simp add: linked_def dist_bodies_def MAX_DIST_def assms hypot_nearest_less)

lemma linked_bodies_adjacent:
  assumes k: "hypot_keeps_far e" and x: "exact_differences currentStars"
  shows "linked_bodies e currentStars \<subseteq> adjacent_bodies currentStars"
proof
  fix p assume "p \<in> linked_bodies e currentStars"
  then obtain i j where ij: "i < j" "j < length currentStars"
    "linked e (currentStars ! i) (currentStars ! j)"
    and p: "p = (currentStars ! i, currentStars ! j) \<or> p = (currentStars ! j, currentStars ! i)"
    by (auto simp: linked_bodies_def)
  let ?s = "currentStars ! i" and ?t = "currentStars ! j"
  from ij have m: "?s \<in> set currentStars" "?t \<in> set currentStars" by simp_all
  with x have dx: "double_sub (coord_x (coordinates ?s)) (coord_x (coordinates ?t)) =
      coord_x (coordinates ?s) - coord_x (coordinates ?t)"
    and dy: "double_sub (coord_y (coordinates ?s)) (coord_y (coordinates ?t)) =
      coord_y (coordinates ?s) - coord_y (coordinates ?t)"
    by (simp_all add: exact_differences_def)
  from ij(3) have "\<not> 180 \<le> math_hypot e (coord_x (coordinates ?s) - coord_x (coordinates ?t))
      (coord_y (coordinates ?s) - coord_y (coordinates ?t))"
    by (simp add: linked_def dist_bodies_def dx dy MAX_DIST_def)
  with k have "\<not> 180 \<le> sqrt ((coord_x (coordinates ?s) - coord_x (coordinates ?t))\<^sup>2 +
      (coord_y (coordinates ?s) - coord_y (coordinates ?t))\<^sup>2)"
    unfolding hypot_keeps_far_def by blast
  then have a: "adjacent ?s ?t" by (simp add: adjacent_def)
  then have "adjacent ?t ?s" by (simp add: adjacent_sym)
  with a p m show "p \<in> adjacent_bodies currentStars" by (auto simp: adjacent_bodies_def)
qed

text \<open>
  Claim C8, as amended. The adjacency map built by the code links two ids exactly when
  they are the ids of two bodies at different places of the list for which the number
  \<open>Math.hypot\<close> returns on the rounded coordinate differences is strictly less than 180.
  Where \<open>Math.hypot\<close> is correctly rounded, that number is less than 180 exactly when the
  exact norm of the rounded differences is less than \<open>180 - 1 / 2 ^ 46\<close>. Two ids of one
  cluster are joined by a chain of linked ids; when the bodies have pairwise different
  ids, two bodies whose ids are in one cluster are joined by a chain of linked bodies;
  and when moreover \<open>Math.hypot\<close> returns no less than 180 where the exact norm is no less
  than 180 and the coordinate differences are doubles, every step of that chain is
  strictly shorter than 180 in Euclidean distance, however far apart the two are.
\<close>

theorem adjacency_is_computed_distance_threshold:
  "(b \<in> set (adj_get (build_adjacency e currentStars) a) \<longleftrightarrow>
      (\<exists>i j. i < j \<and> j < length currentStars \<and>
             dist_bodies e (currentStars ! i) (currentStars ! j) < MAX_DIST \<and>
             (a = body_id (currentStars ! i) \<and> b = body_id (currentStars ! j) \<or>
              a = body_id (currentStars ! j) \<and> b = body_id (currentStars ! i)))) \<and>
   (math_hypot e = hypot_nearest \<longrightarrow>
      (dist_bodies e s1 s2 < MAX_DIST \<longleftrightarrow>
         sqrt ((double_sub (coord_x (coordinates s1)) (coord_x (coordinates s2)))\<^sup>2 +
               (double_sub (coord_y (coordinates s1)) (coord_y (coordinates s2)))\<^sup>2)
           < 180 - 1 / 2 ^ 46)) \<and>
   (\<forall>K \<in> set (find_clusters e currentStars). \<forall>a \<in> set K. \<forall>b \<in> set K.
      (a, b) \<in> (linked_ids e currentStars)\<^sup>*) \<and>
   (distinct (map body_id currentStars) \<longrightarrow>
      (\<forall>K \<in> set (find_clusters e currentStars). \<forall>s \<in> set currentStars. \<forall>t \<in> set currentStars.
         body_id s \<in> set K \<and> body_id t \<in> set K \<longrightarrow>
         (s, t) \<in> (linked_bodies e currentStars)\<^sup>* \<and>
         (hypot_keeps_far e \<and> exact_differences currentStars \<longrightarrow>
            (s, t) \<in> (adjacent_bodies currentStars)\<^sup>*)))"
proof (intro conjI ballI impI)
  have "b \<in> set (adj_get (build_adjacency e currentStars) a) \<longleftrightarrow>
      (a, b) \<in> edges (build_adjacency e currentStars)"
    by (simp add: edges_def)
  also have "\<dots> \<longleftrightarrow> (a, b) \<in> linked_ids e currentStars"
    by (simp add: edges_build_adjacency)
  finally show "b \<in> set (adj_get (build_adjacency e currentStars) a) \<longleftrightarrow>
      (\<exists>i j. i < j \<and> j < length currentStars \<and>
             dist_bodies e (currentStars ! i) (currentStars ! j) < MAX_DIST \<and>
             (a = body_id (currentStars ! i) \<and> b = body_id (currentStars ! j) \<or>
              a = body_id (currentStars ! j) \<and> b = body_id (currentStars ! i)))"
    by (simp add: linked_ids_def linked_def)
next
  assume "math_hypot e = hypot_nearest"
  from linked_nearest [OF this, of s1 s2]
  show "dist_bodies e s1 s2 < MAX_DIST \<longleftrightarrow>
         sqrt ((double_sub (coord_x (coordinates s1)) (coord_x (coordinates s2)))\<^sup>2 +
               (double_sub (coord_y (coordinates s1)) (coord_y (coordinates s2)))\<^sup>2)
           < 180 - 1 / 2 ^ 46"
    by (simp add: linked_def)
next
  fix K a b assume "K \<in> set (find_clusters e currentStars)" "a \<in> set K" "b \<in> set K"
  then show "(a, b) \<in> (linked_ids e currentStars)\<^sup>*" by (rule find_clusters_connected(3))
next
  fix K s t
  assume d: "distinct (map body_id currentStars)" and K: "K \<in> set (find_clusters e currentStars)"
    and st: "s \<in> set currentStars" "t \<in> set currentStars"
    and m: "body_id s \<in> set K \<and> body_id t \<in> set K"
  from m have "(body_id s, body_id t) \<in> (linked_ids e currentStars)\<^sup>*"
    using find_clusters_connected(3) [OF K] by blast
  from bodies_path [OF d this st refl refl]
  show l: "(s, t) \<in> (linked_bodies e currentStars)\<^sup>*" .
  assume "hypot_keeps_far e \<and> exact_differences currentStars"
  then have "linked_bodies e currentStars \<subseteq> adjacent_bodies currentStars"
    by (simp add: linked_bodies_adjacent)
  from rtrancl_mono [OF this] l show "(s, t) \<in> (adjacent_bodies currentStars)\<^sup>*" by blast
qed

section \<open>The scenarios, evaluated\<close>

lemma close_iff_squares:
  "dist_bodies offline_env (body_at i px py) (body_at j qx qy) < MAX_DIST \<longleftrightarrow>
     (double_sub px qx)\<^sup>2 + (double_sub py qy)\<^sup>2 < (180 - 1 / 2 ^ 46) * (180 - 1 / 2 ^ 46)"
  by (simp add: dist_bodies_def offline_env_def MAX_DIST_def body_at_def
      hypot_nearest_less_squares power2_eq_square)

lemma hypot_keeps_far_offline: "hypot_keeps_far offline_env"
proof -
  have "180 \<le> hypot_nearest a b" if "180 \<le> sqrt (a\<^sup>2 + b\<^sup>2)" for a b
  proof -
    have "(180 :: real) - 1 / 2 ^ 46 \<le> 180" by simp
    with that have "\<not> sqrt (a\<^sup>2 + b\<^sup>2) < 180 - 1 / 2 ^ 46" by linarith
    then show ?thesis by (simp add: hypot_nearest_less not_less [symmetric])
  qed
  then show ?thesis by (simp add: hypot_keeps_far_def offline_env_def)
qed

lemma body_id_body_at: "body_id (body_at i px py) = i"
  by (simp add: body_at_def)

lemma adjacency_scenario_A_and_far:
  "build_adjacency offline_env scenario_A_and_far =
     [(''A'', [''B'', ''C'']), (''B'', [''A'', ''C'']), (''C'', [''A'', ''B'']), (''D'', [])]"
  by (simp add: scenario_A_and_far_def build_adjacency_def close_iff_squares double_sub_Ints adj_push_def
      adj_set_def body_id_body_at)

lemma clusters_scenario_A_and_far: "find_clusters offline_env scenario_A_and_far = [[''A'', ''C'', ''B'']]"
  unfolding find_clusters_def adjacency_scenario_A_and_far
  by (simp add: scenario_A_and_far_def body_id_body_at adj_get_def)

lemma adjacency_chain_of_three:
  "build_adjacency offline_env chain_of_three = [(''A'', [''B'']), (''B'', [''A'', ''C'']), (''C'', [''B''])]"
  by (simp add: chain_of_three_def build_adjacency_def close_iff_squares double_sub_Ints adj_push_def
      adj_set_def body_id_body_at)

lemma clusters_chain_of_three: "find_clusters offline_env chain_of_three = [[''A'', ''B'', ''C'']]"
  unfolding find_clusters_def adjacency_chain_of_three
  by (simp add: chain_of_three_def body_id_body_at adj_get_def)

lemma far_body_is_isolated: "(''D'', b) \<notin> linked_ids offline_env scenario_A_and_far"
  using edges_build_adjacency [of offline_env scenario_A_and_far]
  by (auto simp: edges_def adjacency_scenario_A_and_far adj_get_def dest!: equalityD2)

lemma adjacency_three_far_apart:
  "build_adjacency offline_env three_far_apart = [(''A'', []), (''B'', []), (''C'', [])]"
  by (simp add: three_far_apart_def build_adjacency_def close_iff_squares double_sub_Ints adj_push_def
      adj_set_def body_id_body_at)

lemma components_three_far_apart: "card (component offline_env three_far_apart a) < 3"
proof -
  have "adj_get (build_adjacency offline_env three_far_apart) a = []"
    by (simp add: adjacency_three_far_apart adj_get_def)
  then have "(a, b) \<notin> edges (build_adjacency offline_env three_far_apart)" for b
    by (simp add: edges_def)
  then have "(a, b) \<notin> linked_ids offline_env three_far_apart" for b
    by (simp add: edges_build_adjacency)
  then have "component offline_env three_far_apart a = {a}" by (intro isolated_component) simp
  then show ?thesis by simp
qed

theorem clusters_have_three_members_witness:
  "[''A'', ''C'', ''B''] \<in> set (find_clusters offline_env scenario_A_and_far) \<and>
   ''A'' \<in> set [''A'', ''C'', ''B''] \<and>
   3 \<le> card (component offline_env scenario_A_and_far ''A'') \<and>
   (\<forall>b. (''D'', b) \<notin> linked_ids offline_env scenario_A_and_far) \<and>
   card (component offline_env scenario_A_and_far ''D'') < 3 \<and>
   ''D'' \<notin> set [''A'', ''C'', ''B''] \<and>
   length scenario_B < 3 \<and>
   find_clusters offline_env scenario_B = [] \<and>
   checkForConstellations offline_env scenario_B [] initial_state = initial_state \<and>
   length three_far_apart = 3 \<and>
   (\<forall>a. card (component offline_env three_far_apart a) < 3) \<and>
   find_clusters offline_env three_far_apart = [] \<and>
   checkForConstellations offline_env three_far_apart [] initial_state = initial_state"
proof -
  have K: "[''A'', ''C'', ''B''] \<in> set (find_clusters offline_env scenario_A_and_far)"
    by (simp add: clusters_scenario_A_and_far)
  have a: "''A'' \<in> set [''A'', ''C'', ''B'']" by simp
  have i: "\<forall>b. (''D'', b) \<notin> linked_ids offline_env scenario_A_and_far"
    by (simp add: far_body_is_isolated)
  have d: "card (component offline_env scenario_A_and_far ''D'') < 3"
    by (simp add: isolated_component [OF i])
  have l: "length scenario_B < 3" by (simp add: scenario_B_def)
  have l3: "length three_far_apart = 3" by (simp add: three_far_apart_def)
  have c3: "\<forall>a. card (component offline_env three_far_apart a) < 3"
    by (simp add: components_three_far_apart)
  note t = clusters_have_three_members [of offline_env scenario_A_and_far "[]" initial_state]
  from t K a have "3 \<le> card (component offline_env scenario_A_and_far ''A'')" by blast
  moreover from t K i have "''D'' \<notin> set [''A'', ''C'', ''B'']" by blast
  moreover from clusters_have_three_members [of offline_env scenario_B "[]" initial_state] l
  have "find_clusters offline_env scenario_B = []"
    "checkForConstellations offline_env scenario_B [] initial_state = initial_state"
    by blast+
  moreover from clusters_have_three_members [of offline_env three_far_apart "[]" initial_state] c3
  have "find_clusters offline_env three_far_apart = []"
    "checkForConstellations offline_env three_far_apart [] initial_state = initial_state"
    by blast+
  ultimately show ?thesis using K a i d l l3 c3 by blast
qed

lemma exact_differences_chain_of_three: "exact_differences chain_of_three"
  by (simp add: exact_differences_def chain_of_three_def body_at_def double_sub_Ints)

theorem adjacency_is_computed_distance_threshold_witness:
  "''B'' \<in> set (adj_get (build_adjacency offline_env chain_of_three) ''A'') \<and>
   (\<exists>i j. i < j \<and> j < length chain_of_three \<and>
          dist_bodies offline_env (chain_of_three ! i) (chain_of_three ! j) < MAX_DIST \<and>
          (''A'' = body_id (chain_of_three ! i) \<and> ''B'' = body_id (chain_of_three ! j) \<or>
           ''A'' = body_id (chain_of_three ! j) \<and> ''B'' = body_id (chain_of_three ! i))) \<and>
   math_hypot offline_env = hypot_nearest \<and>
   sqrt ((double_sub (coord_x (coordinates (body_at ''A'' 0 0)))
                     (coord_x (coordinates (body_at ''B'' 100 100))))\<^sup>2 +
         (double_sub (coord_y (coordinates (body_at ''A'' 0 0)))
                     (coord_y (coordinates (body_at ''B'' 100 100))))\<^sup>2) < 180 - 1 / 2 ^ 46 \<and>
   dist_bodies offline_env (body_at ''A'' 0 0) (body_at ''B'' 100 100) < MAX_DIST \<and>
   \<not> adjacent (body_at ''A'' 0 0) (body_at ''C'' 200 200) \<and>
   distinct (map body_id chain_of_three) \<and>
   [''A'', ''B'', ''C''] \<in> set (find_clusters offline_env chain_of_three) \<and>
   body_at ''A'' 0 0 \<in> set chain_of_three \<and>
   body_at ''C'' 200 200 \<in> set chain_of_three \<and>
   body_id (body_at ''A'' 0 0) \<in> set [''A'', ''B'', ''C''] \<and>
   body_id (body_at ''C'' 200 200) \<in> set [''A'', ''B'', ''C''] \<and>
   hypot_keeps_far offline_env \<and> exact_differences chain_of_three \<and>
   (''A'', ''C'') \<in> (linked_ids offline_env chain_of_three)\<^sup>* \<and>
   (body_at ''A'' 0 0, body_at ''C'' 200 200) \<in> (linked_bodies offline_env chain_of_three)\<^sup>* \<and>
   (body_at ''A'' 0 0, body_at ''C'' 200 200) \<in> (adjacent_bodies chain_of_three)\<^sup>*"
proof -
  note t = adjacency_is_computed_distance_threshold
    [of "''B''" offline_env chain_of_three "''A''" "body_at ''A'' 0 0" "body_at ''B'' 100 100"]
  have 1: "''B'' \<in> set (adj_get (build_adjacency offline_env chain_of_three) ''A'')"
    by (simp add: adjacency_chain_of_three adj_get_def)
  have 2: "\<not> adjacent (body_at ''A'' 0 0) (body_at ''C'' 200 200)"
    by (simp add: adjacent_squares body_at_def)
  have 3: "distinct (map body_id chain_of_three)"
    by (simp add: chain_of_three_def body_id_body_at)
  have 4: "[''A'', ''B'', ''C''] \<in> set (find_clusters offline_env chain_of_three)"
    by (simp add: clusters_chain_of_three)
  have 5: "body_at ''A'' 0 0 \<in> set chain_of_three" "body_at ''C'' 200 200 \<in> set chain_of_three"
    by (simp_all add: chain_of_three_def)
  have 6: "body_id (body_at ''A'' 0 0) \<in> set [''A'', ''B'', ''C'']"
    "body_id (body_at ''C'' 200 200) \<in> set [''A'', ''B'', ''C'']"
    by (simp_all add: body_id_body_at)
  have 7: "math_hypot offline_env = hypot_nearest" by (simp add: offline_env_def)
  have "(20000 :: real) < (180 - 1 / 2 ^ 46)\<^sup>2" by (simp add: power2_eq_square)
  then have "sqrt 20000 < sqrt ((180 - 1 / 2 ^ 46)\<^sup>2)" by (simp only: real_sqrt_less_iff)
  also have "sqrt ((180 - 1 / 2 ^ 46)\<^sup>2) = 180 - 1 / 2 ^ 46"
    by (rule real_sqrt_unique [OF refl]) simp
  finally have 8: "sqrt ((double_sub (coord_x (coordinates (body_at ''A'' 0 0)))
                     (coord_x (coordinates (body_at ''B'' 100 100))))\<^sup>2 +
         (double_sub (coord_y (coordinates (body_at ''A'' 0 0)))
                     (coord_y (coordinates (body_at ''B'' 100 100))))\<^sup>2) < 180 - 1 / 2 ^ 46"
    by (simp add: body_at_def double_sub_Ints)
  note 9 = hypot_keeps_far_offline exact_differences_chain_of_three
  note t1 = t [THEN conjunct1]
    and t2 = t [THEN conjunct2, THEN conjunct1]
    and t3 = t [THEN conjunct2, THEN conjunct2, THEN conjunct1]
    and t4 = t [THEN conjunct2, THEN conjunct2, THEN conjunct2]
  from t1 1 have 10: "\<exists>i j. i < j \<and> j < length chain_of_three \<and>
          dist_bodies offline_env (chain_of_three ! i) (chain_of_three ! j) < MAX_DIST \<and>
          (''A'' = body_id (chain_of_three ! i) \<and> ''B'' = body_id (chain_of_three ! j) \<or>
           ''A'' = body_id (chain_of_three ! j) \<and> ''B'' = body_id (chain_of_three ! i))"
    by (rule iffD1)
  from t2 7 8
  have 11: "dist_bodies offline_env (body_at ''A'' 0 0) (body_at ''B'' 100 100) < MAX_DIST"
    by (simp only: simp_thms)
  from t3 4 have 12: "(''A'', ''C'') \<in> (linked_ids offline_env chain_of_three)\<^sup>*"
    by simp
  from t4 3 4 5 6
  have c: "(body_at ''A'' 0 0, body_at ''C'' 200 200) \<in> (linked_bodies offline_env chain_of_three)\<^sup>* \<and>
      (hypot_keeps_far offline_env \<and> exact_differences chain_of_three \<longrightarrow>
       (body_at ''A'' 0 0, body_at ''C'' 200 200) \<in> (adjacent_bodies chain_of_three)\<^sup>*)"
    by blast
  from c
  have 13: "(body_at ''A'' 0 0, body_at ''C'' 200 200) \<in> (linked_bodies offline_env chain_of_three)\<^sup>*"
    by (rule conjunct1)
  from c 9
  have 14: "(body_at ''A'' 0 0, body_at ''C'' 200 200) \<in> (adjacent_bodies chain_of_three)\<^sup>*"
    by (simp only: simp_thms)
  show ?thesis by (intro conjI; fact)
qed

text \<open>
  Claim C8 as the specification states it fails within rounding. Body \<open>B\<close> is closer to
  body \<open>A\<close> than 180, by less than half the gap between 180 and the double before it;
  the coordinate differences are doubles, and a correctly rounded \<open>Math.hypot\<close> returns
  180 for them, so the code does not link the two. Body \<open>C\<close> is next to \<open>B\<close>: the three
  bodies are one component of the specification's graph, and the code finds no cluster.
\<close>

lemma distances_near_miss:
  "\<not> dist_bodies offline_env (body_at ''A'' 0 0)
      (body_at ''B'' (108 + 1 / 2 ^ 45) (144 - 1 / 2 ^ 45)) < MAX_DIST"
  "\<not> dist_bodies offline_env (body_at ''A'' 0 0)
      (body_at ''C'' (108 + 1 / 2 ^ 45) 150) < MAX_DIST"
  "dist_bodies offline_env (body_at ''B'' (108 + 1 / 2 ^ 45) (144 - 1 / 2 ^ 45))
      (body_at ''C'' (108 + 1 / 2 ^ 45) 150) < MAX_DIST"
proof -
  have m: "\<bar>- (108 * 2 ^ 45 + 1) :: int\<bar> < 2 ^ 53" "\<bar>- (144 * 2 ^ 45 - 1) :: int\<bar> < 2 ^ 53"
    "\<bar>- (6 * 2 ^ 45 + 1) :: int\<bar> < 2 ^ 53"
    by simp_all
  have x: "double_sub 0 (108 + 1 / 2 ^ 45) = - (108 + 1 / 2 ^ 45)"
    using round_double_dyadic [OF m(1), of 45] by (simp add: double_sub_def field_simps)
  have y: "double_sub 0 (144 - 1 / 2 ^ 45) = - (144 - 1 / 2 ^ 45)"
    using round_double_dyadic [OF m(2), of 45] by (simp add: double_sub_def field_simps)
  have z: "double_sub (144 - 1 / 2 ^ 45) 150 = - (6 + 1 / 2 ^ 45)"
    using round_double_dyadic [OF m(3), of 45] by (simp add: double_sub_def field_simps)
  have w: "double_sub (108 + 1 / 2 ^ 45) (108 + 1 / 2 ^ 45) = 0"
    by (simp add: double_sub_def round_double_def)
  have v: "double_sub 0 150 = - 150" by (simp add: double_sub_Ints)
  show "\<not> dist_bodies offline_env (body_at ''A'' 0 0)
      (body_at ''B'' (108 + 1 / 2 ^ 45) (144 - 1 / 2 ^ 45)) < MAX_DIST"
    unfolding close_iff_squares x y by (simp add: power2_eq_square)
  show "\<not> dist_bodies offline_env (body_at ''A'' 0 0)
      (body_at ''C'' (108 + 1 / 2 ^ 45) 150) < MAX_DIST"
    unfolding close_iff_squares x v by (simp add: power2_eq_square)
  show "dist_bodies offline_env (body_at ''B'' (108 + 1 / 2 ^ 45) (144 - 1 / 2 ^ 45))
      (body_at ''C'' (108 + 1 / 2 ^ 45) 150) < MAX_DIST"
    unfolding close_iff_squares z w by (simp add: power2_eq_square)
qed

lemma adjacency_near_miss:
  "build_adjacency offline_env near_miss = [(''A'', []), (''B'', [''C'']), (''C'', [''B''])]"
  unfolding near_miss_def build_adjacency_def
  by (simp only: link_all.simps link_later.simps distances_near_miss if_True if_False
      foldl.simps body_id_body_at)
    (simp add: adj_push_def adj_set_def)

lemma clusters_near_miss: "find_clusters offline_env near_miss = []"
  unfolding find_clusters_def adjacency_near_miss
  by (simp add: near_miss_def body_id_body_at adj_get_def)

theorem rounded_distance_misses_adjacent_pair:
  "near_miss ! 0 = body_at ''A'' 0 0 \<and>
   near_miss ! 1 = body_at ''B'' (108 + 1 / 2 ^ 45) (144 - 1 / 2 ^ 45) \<and>
   near_miss ! 2 = body_at ''C'' (108 + 1 / 2 ^ 45) 150 \<and>
   adjacent (near_miss ! 0) (near_miss ! 1) \<and>
   adjacent (near_miss ! 1) (near_miss ! 2) \<and>
   math_hypot offline_env = hypot_nearest \<and>
   \<not> dist_bodies offline_env (near_miss ! 0) (near_miss ! 1) < MAX_DIST \<and>
   ''B'' \<notin> set (adj_get (build_adjacency offline_env near_miss) ''A'') \<and>
   ''A'' \<notin> set (adj_get (build_adjacency offline_env near_miss) ''B'') \<and>
   find_clusters offline_env near_miss = [] \<and>
   checkForConstellations offline_env near_miss [] initial_state = initial_state"
proof -
  have n: "near_miss ! 0 = body_at ''A'' 0 0"
    "near_miss ! 1 = body_at ''B'' (108 + 1 / 2 ^ 45) (144 - 1 / 2 ^ 45)"
    "near_miss ! 2 = body_at ''C'' (108 + 1 / 2 ^ 45) 150"
    by (simp_all add: near_miss_def)
  have a: "adjacent (near_miss ! 0) (near_miss ! 1)" "adjacent (near_miss ! 1) (near_miss ! 2)"
    unfolding n by (simp_all add: adjacent_squares body_at_def power2_eq_square)
  have h: "math_hypot offline_env = hypot_nearest" by (simp add: offline_env_def)
  have d: "\<not> dist_bodies offline_env (near_miss ! 0) (near_miss ! 1) < MAX_DIST"
    unfolding n by (rule distances_near_miss(1))
  have l: "''B'' \<notin> set (adj_get (build_adjacency offline_env near_miss) ''A'')"
    "''A'' \<notin> set (adj_get (build_adjacency offline_env near_miss) ''B'')"
    by (simp_all add: adjacency_near_miss adj_get_def)
  have c: "find_clusters offline_env near_miss = []" by (rule clusters_near_miss)
  then have k: "checkForConstellations offline_env near_miss [] initial_state = initial_state"
    by (simp add: no_cluster_no_change)
  show ?thesis by (intro conjI; fact)
qed

section \<open>One step of the reconciliation loop, by cases\<close>

lemma distinct_cid_distinct: "distinct (map cid cs) \<Longrightarrow> distinct cs"
  by (simp add: distinct_map)

lemma reconcile_cluster_cases [consumes 1, case_names create keep merge]:
  assumes d: "distinct (map cid cs)"
  obtains
    (create) "filter (overlapping K) cs = []"
      "reconcile_cluster e K (cs, ch, st) = create_constellation e K (cs, ch, st)"
  | (keep) p where "filter (overlapping K) cs = [p]" "set K \<subseteq> set (starIds p)"
      "reconcile_cluster e K (cs, ch, st) = (cs, ch, st)"
  | (merge) p os M where "filter (overlapping K) cs = p # os"
      "\<not> set K \<subseteq> set (starIds p) \<or> os \<noteq> []"
      "set M = set K \<union> (\<Union>c \<in> set (p # os). set (starIds c))" "distinct M"
      "reconcile_cluster e K (cs, ch, st) =
         (map (\<lambda>c. if c = p then c\<lparr>starIds := M\<rparr> else c) (filter (\<lambda>c. c \<notin> set os) cs),
          True, st)"
proof (cases "filter (overlapping K) cs")
  case Nil
  then show ?thesis by (intro create) (simp_all add: reconcile_cluster_def)
next
  case (Cons p os)
  then have "set (p # os) \<subseteq> set cs" by (metis filter_is_subset)
  then have p: "p \<in> set cs" and os: "set os \<subseteq> set cs" by auto
  let ?M = "foldl set_add (new_Set (starIds p @ K)) (concat (map starIds os))"
  have r: "reconcile_cluster e K (cs, ch, st) =
     (if \<not> set K \<subseteq> set (starIds p) \<or> os \<noteq> [] then
        (map (\<lambda>c. if c = p then c\<lparr>starIds := ?M\<rparr> else c) (filter (\<lambda>c. c \<notin> set os) cs),
         True, st)
      else (cs, ch, st))"
    using Cons by (simp add: reconcile_cluster_def merge_constellations_eq
        filter_map_by_cid [OF d p os])
  show ?thesis
  proof (cases "\<not> set K \<subseteq> set (starIds p) \<or> os \<noteq> []")
    case True
    show ?thesis
    proof (rule merge [OF Cons True])
      show "set ?M = set K \<union> (\<Union>c \<in> set (p # os). set (starIds c))"
        by (auto simp: set_foldl_set_add set_new_Set)
      show "distinct ?M" by (simp add: distinct_foldl_set_add distinct_new_Set)
      show "reconcile_cluster e K (cs, ch, st) =
         (map (\<lambda>c. if c = p then c\<lparr>starIds := ?M\<rparr> else c) (filter (\<lambda>c. c \<notin> set os) cs),
          True, st)"
        using r True by simp
    qed
  next
    case False
    then show ?thesis using Cons r by (intro keep [of p]) auto
  qed
qed

lemma merged_list:
  fixes M :: "string list"
  assumes d: "distinct (map cid cs)" and f: "filter (overlapping K) cs = p # os"
  defines "cs' \<equiv> map (\<lambda>c. if c = p then c\<lparr>starIds := M\<rparr> else c) (filter (\<lambda>c. c \<notin> set os) cs)"
  shows "distinct (map cid cs')"
    and "set cs' = insert (p\<lparr>starIds := M\<rparr>) (set cs - set (p # os))"
    and "cid ` set cs' \<subseteq> cid ` set cs"
proof -
  have "map cid cs' = map cid (filter (\<lambda>c. c \<notin> set os) cs)"
    by (simp add: cs'_def comp_def if_distrib [of cid] cong: if_cong)
  then show "distinct (map cid cs')" using d by (simp add: distinct_map_filter)
  from f have "set (p # os) \<subseteq> set cs" by (metis filter_is_subset)
  then have p: "p \<in> set cs" by simp
  have "distinct (filter (overlapping K) cs)"
    by (rule distinct_filter [OF distinct_cid_distinct [OF d]])
  with f have "p \<notin> set os" by simp
  with p show "set cs' = insert (p\<lparr>starIds := M\<rparr>) (set cs - set (p # os))"
    by (auto simp: cs'_def)
  then show "cid ` set cs' \<subseteq> cid ` set cs" using p by auto
qed

lemma overlaps_set:
  "filter (overlapping K) cs = p # os \<Longrightarrow> set (p # os) = {c \<in> set cs. overlapping K c}"
  by (metis set_filter)

section \<open>Disjointness and size are invariants\<close>

lemma member_sets_disjointD:
  "member_sets_disjoint cs \<Longrightarrow> c \<in> set cs \<Longrightarrow> d \<in> set cs \<Longrightarrow> c \<noteq> d
   \<Longrightarrow> set (starIds c) \<inter> set (starIds d) = {}"
  by (simp add: member_sets_disjoint_def)

lemma reconcile_cluster_valid:
  assumes inj: "inj (uuid_stream e)"
    and K: "distinct K" "3 \<le> length K"
    and v: "valid_registry cs" and i: "issued e st cs"
    and r: "reconcile_cluster e K (cs, ch, st) = (cs', ch', st')"
  shows "valid_registry cs' \<and> issued e st' cs' \<and> uuid_calls st \<le> uuid_calls st' \<and>
         constellations st' = constellations st"
proof -
  from v have d: "distinct (map cid cs)" by (simp add: valid_registry_def)
  from d show ?thesis
  proof (cases rule: reconcile_cluster_cases [where K = K and e = e and ch = ch and st = st])
    case create
    from create(2) r have "create_constellation e K (cs, ch, st) = (cs', ch', st')" by simp
    note c = create_constellation_result [OF this]
    let ?new = "\<lparr>cid = uuid_stream e (uuid_calls st),
                 cname = fst (generateConstellationName e (length K) st),
                 starIds = K, discoveredAt = clock e (now_calls st)\<rparr>"
    have cs': "cs' = cs @ [?new]" using c by simp
    have fresh: "cid ?new \<notin> cid ` set cs"
    proof
      assume "cid ?new \<in> cid ` set cs"
      with i obtain k where "k < uuid_calls st" "uuid_stream e (uuid_calls st) = uuid_stream e k"
        by (auto simp: issued_def)
      with inj show False by (auto dest: injD)
    qed
    have no: "\<forall>c \<in> set cs. set (starIds c) \<inter> set K = {}"
      using create(1) by (simp add: no_overlaps_iff)
    have "distinct (map cid cs')" using d fresh by (simp add: cs')
    moreover have "\<forall>c \<in> set cs'. 3 \<le> card (set (starIds c))"
      using v K by (auto simp: cs' valid_registry_def distinct_card)
    moreover have "member_sets_disjoint cs'"
      using v no unfolding cs' valid_registry_def member_sets_disjoint_def by auto
    moreover have "issued e st' cs'"
      using i c unfolding issued_def cs' lessThan_def by auto
    ultimately show ?thesis using c by (simp add: valid_registry_def)
  next
    case (keep p)
    with r v i show ?thesis by simp
  next
    case (merge p os M)
    let ?p' = "p\<lparr>starIds := M\<rparr>"
    from merge(5) r have cs': "cs' = map (\<lambda>c. if c = p then c\<lparr>starIds := M\<rparr> else c)
        (filter (\<lambda>c. c \<notin> set os) cs)" and st': "st' = st" by simp_all
    note m = merged_list [OF d merge(1), where M = M, folded cs']
    note o = overlaps_set [OF merge(1)]
    from o have p: "p \<in> set cs" by auto
    from v have md: "member_sets_disjoint cs" by (simp add: valid_registry_def)
    have rest: "set (starIds c) \<inter> set M = {}" if cc: "c \<in> set cs - set (p # os)" for c
    proof -
      from cc o have "\<not> overlapping K c" by auto
      then have 1: "set (starIds c) \<inter> set K = {}" by (simp add: overlapping_iff)
      have 2: "set (starIds c) \<inter> set (starIds q) = {}" if q: "q \<in> set (p # os)" for q
      proof (rule member_sets_disjointD [OF md])
        show "c \<in> set cs" using cc by simp
        show "q \<in> set cs" using q o by auto
        show "c \<noteq> q" using q cc by auto
      qed
      have "set (starIds c) \<inter> (\<Union>q \<in> set (p # os). set (starIds q)) = {}"
        using 2 by blast
      with 1 show ?thesis unfolding merge(3) by blast
    qed
    have "3 \<le> card (set (starIds p))" using v p by (simp add: valid_registry_def)
    also have "\<dots> \<le> card (set M)" by (rule card_mono) (auto simp: merge(3))
    finally have big: "3 \<le> card (set (starIds ?p'))" by simp
    have "\<forall>c \<in> set cs'. 3 \<le> card (set (starIds c))"
      using v big unfolding m(2) valid_registry_def by auto
    moreover have "member_sets_disjoint cs'"
      unfolding member_sets_disjoint_def m(2)
    proof (intro ballI impI)
      fix c c' assume c: "c \<in> insert ?p' (set cs - set (p # os))"
        and c': "c' \<in> insert ?p' (set cs - set (p # os))" and ne: "c \<noteq> c'"
      show "set (starIds c) \<inter> set (starIds c') = {}"
      proof (cases "c = ?p'")
        case True
        with c' ne have "c' \<in> set cs - set (p # os)" by auto
        from rest [OF this] True show ?thesis by auto
      next
        case False
        with c have cc: "c \<in> set cs - set (p # os)" by auto
        show ?thesis
        proof (cases "c' = ?p'")
          case True
          with rest [OF cc] show ?thesis by auto
        next
          case False
          with c' have "c' \<in> set cs - set (p # os)" by auto
          with cc ne show ?thesis
            by (intro member_sets_disjointD [OF md]) auto
        qed
      qed
    qed
    moreover have "issued e st' cs'"
      using i m(3) unfolding issued_def st' by blast
    ultimately show ?thesis using m(1) st' by (simp add: valid_registry_def)
  qed
qed

lemma reconcile_loop_valid:
  assumes inj: "inj (uuid_stream e)"
    and K: "\<forall>K \<in> set Ks. distinct K \<and> 3 \<le> length K"
    and v: "valid_registry cs" and i: "issued e st cs"
    and r: "fold (reconcile_cluster e) Ks (cs, ch, st) = (cs', ch', st')"
  shows "valid_registry cs' \<and> issued e st' cs' \<and> uuid_calls st \<le> uuid_calls st' \<and>
         constellations st' = constellations st"
  using K v i r
proof (induction Ks arbitrary: cs ch st)
  case Nil
  then show ?case by simp
next
  case (Cons K Ks)
  obtain cs1 ch1 st1 where s: "reconcile_cluster e K (cs, ch, st) = (cs1, ch1, st1)"
    by (metis prod_cases3)
  from Cons.prems(1) have k: "distinct K" "3 \<le> length K" by auto
  note one = reconcile_cluster_valid [OF inj k Cons.prems(2,3) s]
  from Cons.prems(4) s have "fold (reconcile_cluster e) Ks (cs1, ch1, st1) = (cs', ch', st')"
    by simp
  from Cons.IH [OF _ _ _ this] Cons.prems(1) one show ?case by auto
qed

lemma find_clusters_shape: "\<forall>K \<in> set (find_clusters e currentStars). distinct K \<and> 3 \<le> length K"
  using find_clusters_connected(1,2) by blast

lemma checkForConstellations_valid:
  assumes inj: "inj (uuid_stream e)"
    and v: "valid_registry (constellations st)" and i: "issued e st (constellations st)"
  shows "valid_registry (constellations (reconcile e currentStars st)) \<and>
         issued e (reconcile e currentStars st) (constellations (reconcile e currentStars st))"
proof (cases "length currentStars < 3")
  case True
  with v i show ?thesis by (simp add: reconcile_def checkForConstellations_def)
next
  case False
  obtain cs' ch' st' where
    f: "fold (reconcile_cluster e) (find_clusters e currentStars) (constellations st, False, st)
        = (cs', ch', st')"
    by (metis prod_cases3)
  note l = reconcile_loop_valid [OF inj find_clusters_shape v i f]
  have r: "reconcile e currentStars st = (if ch' then st'\<lparr>constellations := cs'\<rparr> else st')"
    using False f by (simp add: reconcile_def checkForConstellations_def)
  show ?thesis
  proof (cases ch')
    case True
    with r l show ?thesis by (simp add: issued_def)
  next
    case False
    have "issued e st' (constellations st)"
      using i l unfolding issued_def by (auto intro: less_le_trans)
    with False r l v show ?thesis by simp
  qed
qed

lemma reconcile_all_valid:
  assumes inj: "inj (uuid_stream e)"
    and v: "valid_registry (constellations st)" and i: "issued e st (constellations st)"
  shows "valid_registry (constellations (reconcile_all e calls st))"
  using v i
proof (induction calls arbitrary: st)
  case Nil
  then show ?case by (simp add: reconcile_all_def)
next
  case (Cons currentStars calls)
  from checkForConstellations_valid [OF inj Cons.prems, of currentStars]
  have "valid_registry (constellations (reconcile_all e calls (reconcile e currentStars st)))"
    by (intro Cons.IH) auto
  then show ?case by (simp add: reconcile_all_def)
qed

text \<open>
  Claim C1. Start from an empty constellation list and run any sequence of checks, each
  on any list of bodies and on the list the previous check left, in a world where
  \<open>uuidv4\<close> never gives the same answer twice. In the list that results, two different
  constellations have no member id in common, every constellation has at least three
  different member ids, and no two constellations share an identity.
\<close>

theorem constellations_stay_disjoint:
  assumes "inj (uuid_stream e)" and "constellations st = []"
  shows "(\<forall>c \<in> set (constellations (reconcile_all e calls st)).
            \<forall>d \<in> set (constellations (reconcile_all e calls st)).
              c \<noteq> d \<longrightarrow> set (starIds c) \<inter> set (starIds d) = {}) \<and>
         (\<forall>c \<in> set (constellations (reconcile_all e calls st)). 3 \<le> card (set (starIds c))) \<and>
         distinct (map cid (constellations (reconcile_all e calls st)))"
proof -
  have "valid_registry (constellations st)" "issued e st (constellations st)"
    using assms(2) by (simp_all add: valid_registry_def member_sets_disjoint_def issued_def)
  from reconcile_all_valid [OF assms(1) this, of calls]
  show ?thesis by (simp add: valid_registry_def member_sets_disjoint_def)
qed

section \<open>A second pass finds every cluster settled\<close>

lemma reconcile_cluster_unchanged_or_flag:
  "reconcile_cluster e K s = s \<or> fst (snd (reconcile_cluster e K s))"
proof -
  obtain cs ch st where s: "s = (cs, ch, st)" by (metis prod_cases3)
  show ?thesis
  proof (cases "filter (overlapping K) cs")
    case Nil
    obtain cs' ch' st' where c: "create_constellation e K (cs, ch, st) = (cs', ch', st')"
      by (metis prod_cases3)
    from create_constellation_result [OF c] c Nil show ?thesis
      by (simp add: s reconcile_cluster_def)
  next
    case (Cons p os)
    then show ?thesis by (simp add: s reconcile_cluster_def merge_constellations_eq)
  qed
qed

lemma reconcile_cluster_flag_stays:
  "fst (snd s) \<Longrightarrow> fst (snd (reconcile_cluster e K s))"
  using reconcile_cluster_unchanged_or_flag [of e K s] by auto

lemma reconcile_loop_flag_stays:
  "fst (snd s) \<Longrightarrow> fst (snd (fold (reconcile_cluster e) Ks s))"
  by (induction Ks arbitrary: s) (simp_all add: reconcile_cluster_flag_stays)

lemma reconcile_loop_unchanged_or_flag:
  "fold (reconcile_cluster e) Ks s = s \<or> fst (snd (fold (reconcile_cluster e) Ks s))"
proof (induction Ks arbitrary: s)
  case Nil
  then show ?case by simp
next
  case (Cons K Ks)
  from reconcile_cluster_unchanged_or_flag [of e K s] show ?case
  proof
    assume "reconcile_cluster e K s = s"
    with Cons.IH [of s] show ?thesis by simp
  next
    assume "fst (snd (reconcile_cluster e K s))"
    then show ?thesis by (simp add: reconcile_loop_flag_stays)
  qed
qed

lemma filter_eq_single:
  assumes "distinct xs" "p \<in> set xs" "P p" "\<forall>c \<in> set xs. P c \<longrightarrow> c = p"
  shows "filter P xs = [p]"
proof -
  have "filter P xs = filter (\<lambda>c. c = p) xs"
  proof (rule filter_cong [OF refl])
    fix c assume "c \<in> set xs"
    with assms(3,4) show "P c = (c = p)" by blast
  qed
  also have "\<dots> = [p]"
    using assms(1,2)
  proof (induction xs)
    case Nil
    then show ?case by simp
  next
    case (Cons x xs)
    show ?case
    proof (cases "x = p")
      case True
      with Cons.prems(1) have "p \<notin> set xs" by simp
      then have "filter (\<lambda>c. c = p) xs = []" by (auto simp: filter_empty_conv)
      with True show ?thesis by simp
    next
      case False
      with Cons.prems have "distinct xs" "p \<in> set xs" by simp_all
      from Cons.IH [OF this] False show ?thesis by simp
    qed
  qed
  finally show ?thesis .
qed

lemma settled_keeps:
  assumes d: "distinct (map cid cs)" and K: "K \<noteq> []" and s: "settled K cs"
  shows "reconcile_cluster e K (cs, ch, st) = (cs, ch, st)"
proof -
  from s obtain p where p: "p \<in> set cs" "set K \<subseteq> set (starIds p)"
    "\<forall>c \<in> set cs. overlapping K c \<longrightarrow> c = p"
    by (auto simp: settled_def)
  from K p(2) have "overlapping K p" by (cases K) (auto simp: overlapping_iff)
  with p have "filter (overlapping K) cs = [p]"
    using filter_eq_single [OF distinct_cid_distinct [OF d], of p "overlapping K"] by blast
  with p(2) show ?thesis by (simp add: reconcile_cluster_def merge_constellations_eq)
qed

lemma settled_loop_keeps:
  assumes "distinct (map cid cs)" and "\<forall>K \<in> set Ks. K \<noteq> [] \<and> settled K cs"
  shows "fold (reconcile_cluster e) Ks (cs, ch, st) = (cs, ch, st)"
  using assms(2)
proof (induction Ks)
  case Nil
  then show ?case by simp
next
  case (Cons K Ks)
  then have "reconcile_cluster e K (cs, ch, st) = (cs, ch, st)"
    by (intro settled_keeps [OF assms(1)]) simp_all
  with Cons show ?case by simp
qed

lemma reconcile_cluster_ids:
  assumes inj: "inj (uuid_stream e)"
    and d: "distinct (map cid cs)" and i: "issued e st cs"
    and r: "reconcile_cluster e K (cs, ch, st) = (cs', ch', st')"
  shows "distinct (map cid cs') \<and> issued e st' cs'"
  using d
proof (cases rule: reconcile_cluster_cases [where K = K and e = e and ch = ch and st = st])
  case create
  from create(2) r have "create_constellation e K (cs, ch, st) = (cs', ch', st')" by simp
  note c = create_constellation_result [OF this]
  have "uuid_stream e (uuid_calls st) \<notin> cid ` set cs"
  proof
    assume "uuid_stream e (uuid_calls st) \<in> cid ` set cs"
    with i obtain k where "k < uuid_calls st" "uuid_stream e (uuid_calls st) = uuid_stream e k"
      by (auto simp: issued_def)
    with inj show False by (auto dest: injD)
  qed
  then have "distinct (map cid cs')" using d c by simp
  moreover have "issued e st' cs'"
    using i c unfolding issued_def lessThan_def by auto
  ultimately show ?thesis by simp
next
  case (keep p)
  with r d i show ?thesis by simp
next
  case (merge p os M)
  from merge(5) r have cs': "cs' = map (\<lambda>c. if c = p then c\<lparr>starIds := M\<rparr> else c)
      (filter (\<lambda>c. c \<notin> set os) cs)" and st': "st' = st" by simp_all
  note m = merged_list [OF d merge(1), where M = M, folded cs']
  have "issued e st' cs'" using i m(3) unfolding issued_def st' by blast
  with m(1) show ?thesis by simp
qed

lemma reconcile_cluster_settles:
  assumes d: "distinct (map cid cs)"
    and r: "reconcile_cluster e K (cs, ch, st) = (cs', ch', st')"
  shows "settled K cs'"
  using d
proof (cases rule: reconcile_cluster_cases [where K = K and e = e and ch = ch and st = st])
  case create
  from create(2) r have "create_constellation e K (cs, ch, st) = (cs', ch', st')" by simp
  note c = create_constellation_result [OF this]
  let ?new = "\<lparr>cid = uuid_stream e (uuid_calls st),
               cname = fst (generateConstellationName e (length K) st),
               starIds = K, discoveredAt = clock e (now_calls st)\<rparr>"
  have cs': "cs' = cs @ [?new]" using c by simp
  have "\<forall>c \<in> set cs. \<not> overlapping K c" using create(1) by (simp add: filter_empty_conv)
  then show ?thesis unfolding settled_def cs' by (intro bexI [of _ ?new]) auto
next
  case (keep p)
  from keep(1) have "{c \<in> set cs. overlapping K c} = {p}" by (metis set_filter list.set(1,2))
  with keep(2) have "settled K cs" unfolding settled_def by (intro bexI [of _ p]) auto
  with keep(3) r show ?thesis by simp
next
  case (merge p os M)
  from merge(5) r have cs': "cs' = map (\<lambda>c. if c = p then c\<lparr>starIds := M\<rparr> else c)
      (filter (\<lambda>c. c \<notin> set os) cs)" by simp
  note m = merged_list [OF d merge(1), where M = M, folded cs']
  note o = overlaps_set [OF merge(1)]
  show ?thesis unfolding settled_def m(2)
  proof (intro bexI [of _ "p\<lparr>starIds := M\<rparr>"] conjI ballI impI)
    show "set K \<subseteq> set (starIds (p\<lparr>starIds := M\<rparr>))" by (auto simp: merge(3))
  next
    fix c assume "c \<in> insert (p\<lparr>starIds := M\<rparr>) (set cs - set (p # os))" "overlapping K c"
    with o show "c = p\<lparr>starIds := M\<rparr>" by auto
  qed simp
qed

lemma reconcile_cluster_keeps_settled:
  assumes d: "distinct (map cid cs)"
    and s: "settled K' cs" and K': "K' \<noteq> []" and dis: "set K' \<inter> set K = {}"
    and r: "reconcile_cluster e K (cs, ch, st) = (cs', ch', st')"
  shows "settled K' cs'"
proof -
  from s obtain p' where p': "p' \<in> set cs" "set K' \<subseteq> set (starIds p')"
    "\<forall>c \<in> set cs. overlapping K' c \<longrightarrow> c = p'"
    by (auto simp: settled_def)
  from d show ?thesis
  proof (cases rule: reconcile_cluster_cases [where K = K and e = e and ch = ch and st = st])
    case create
    from create(2) r have "create_constellation e K (cs, ch, st) = (cs', ch', st')" by simp
    note c = create_constellation_result [OF this]
    let ?new = "\<lparr>cid = uuid_stream e (uuid_calls st),
                 cname = fst (generateConstellationName e (length K) st),
                 starIds = K, discoveredAt = clock e (now_calls st)\<rparr>"
    have cs': "cs' = cs @ [?new]" using c by simp
    have "\<not> overlapping K' ?new" using dis by (auto simp: overlapping_iff)
    with p' show ?thesis unfolding settled_def cs' by (intro bexI [of _ p']) auto
  next
    case (keep p)
    with r s show ?thesis by simp
  next
    case (merge p os M)
    from merge(5) r have cs': "cs' = map (\<lambda>c. if c = p then c\<lparr>starIds := M\<rparr> else c)
        (filter (\<lambda>c. c \<notin> set os) cs)" by simp
    note m = merged_list [OF d merge(1), where M = M, folded cs']
    note o = overlaps_set [OF merge(1)]
    show ?thesis
    proof (cases "p' \<in> set (p # os)")
      case True
      show ?thesis unfolding settled_def m(2)
      proof (intro bexI [of _ "p\<lparr>starIds := M\<rparr>"] conjI ballI impI)
        have "set (starIds p') \<subseteq> set M" using True unfolding merge(3) by blast
        with p'(2) show "set K' \<subseteq> set (starIds (p\<lparr>starIds := M\<rparr>))" by simp
      next
        fix c assume c: "c \<in> insert (p\<lparr>starIds := M\<rparr>) (set cs - set (p # os))"
          and oc: "overlapping K' c"
        show "c = p\<lparr>starIds := M\<rparr>"
        proof (rule ccontr)
          assume "c \<noteq> p\<lparr>starIds := M\<rparr>"
          with c have "c \<in> set cs" "c \<notin> set (p # os)" by auto
          with p'(3) oc True show False by auto
        qed
      qed simp
    next
      case False
      have none: "set (starIds q) \<inter> set K' = {}" if "q \<in> set (p # os)" for q
      proof -
        from that o have "q \<in> set cs" by auto
        moreover from that False have "q \<noteq> p'" by auto
        ultimately have "\<not> overlapping K' q" using p'(3) by auto
        then show ?thesis by (simp add: overlapping_iff)
      qed
      have "set M \<inter> set K' = {}"
        unfolding merge(3) using none dis by blast
      then have nm: "\<not> overlapping K' (p\<lparr>starIds := M\<rparr>)" by (simp add: overlapping_iff)
      show ?thesis unfolding settled_def m(2)
      proof (intro bexI [of _ p'] conjI ballI impI)
        show "set K' \<subseteq> set (starIds p')" by (rule p'(2))
      next
        fix c assume c: "c \<in> insert (p\<lparr>starIds := M\<rparr>) (set cs - set (p # os))"
          and oc: "overlapping K' c"
        with nm have "c \<in> set cs" by auto
        with p'(3) oc show "c = p'" by auto
      next
        show "p' \<in> insert (p\<lparr>starIds := M\<rparr>) (set cs - set (p # os))"
          using p'(1) False by simp
      qed
    qed
  qed
qed

lemma reconcile_loop_settles:
  assumes inj: "inj (uuid_stream e)"
    and d: "distinct (map cid cs)" and i: "issued e st cs"
    and Ks: "distinct (concat Ks)" "\<forall>K \<in> set Ks. K \<noteq> []"
    and r: "fold (reconcile_cluster e) Ks (cs, ch, st) = (cs', ch', st')"
  shows "distinct (map cid cs') \<and> issued e st' cs' \<and> (\<forall>K \<in> set Ks. settled K cs') \<and>
         (\<forall>K'. K' \<noteq> [] \<and> settled K' cs \<and> (\<forall>K \<in> set Ks. set K' \<inter> set K = {})
                \<longrightarrow> settled K' cs')"
  using d i Ks r
proof (induction Ks arbitrary: cs ch st)
  case Nil
  then show ?case by simp
next
  case (Cons K Ks)
  obtain cs1 ch1 st1 where s: "reconcile_cluster e K (cs, ch, st) = (cs1, ch1, st1)"
    by (metis prod_cases3)
  note ids = reconcile_cluster_ids [OF inj Cons.prems(1,2) s]
  from Cons.prems(5) s have f: "fold (reconcile_cluster e) Ks (cs1, ch1, st1) = (cs', ch', st')"
    by simp
  have "distinct (concat Ks)" "\<forall>K \<in> set Ks. K \<noteq> []" using Cons.prems(3,4) by auto
  with ids f have ih: "distinct (map cid cs')" "issued e st' cs'" "\<forall>K \<in> set Ks. settled K cs'"
    "\<And>K'. K' \<noteq> [] \<Longrightarrow> settled K' cs1 \<Longrightarrow> \<forall>K \<in> set Ks. set K' \<inter> set K = {} \<Longrightarrow> settled K' cs'"
    using Cons.IH [of cs1 st1 ch1] by blast+
  have own: "settled K cs1" by (rule reconcile_cluster_settles [OF Cons.prems(1) s])
  have k: "K \<noteq> []" using Cons.prems(4) by simp
  have apart: "\<forall>L \<in> set Ks. set K \<inter> set L = {}" using Cons.prems(3) by auto
  have "settled K cs'" by (rule ih(4) [OF k own apart])
  moreover have "settled K' cs'"
    if "K' \<noteq> []" "settled K' cs" "\<forall>L \<in> set (K # Ks). set K' \<inter> set L = {}" for K'
  proof (rule ih(4))
    show "K' \<noteq> []" by (rule that)
    show "settled K' cs1"
      using that by (intro reconcile_cluster_keeps_settled [OF Cons.prems(1) _ _ _ s]) auto
    show "\<forall>K \<in> set Ks. set K' \<inter> set K = {}" using that by simp
  qed
  ultimately show ?case using ih by auto
qed

lemma find_clusters_nonempty: "\<forall>K \<in> set (find_clusters e currentStars). K \<noteq> []"
  using find_clusters_connected(1) by fastforce

text \<open>
  Claim C2. Take any list of bodies and any state whose constellations have pairwise
  different identities, all of them answers \<open>uuidv4\<close> has already given, in a world where
  \<open>uuidv4\<close> never repeats itself. Running the check on the state that one run of the
  check has produced, with the same bodies, gives back that state: the same
  constellation list, the same resources (no reward), the same log (no entry) and no
  further call to the naming service, to \<open>uuidv4\<close> or to the clock.
\<close>

theorem reconciliation_is_idempotent:
  assumes inj: "inj (uuid_stream e)"
    and d: "distinct (map cid (constellations st))"
    and i: "cid ` set (constellations st) \<subseteq> uuid_stream e ` {..< uuid_calls st}"
  shows "reconcile e currentStars (reconcile e currentStars st) = reconcile e currentStars st"
proof (cases "length currentStars < 3")
  case True
  then show ?thesis by (simp add: reconcile_def checkForConstellations_def)
next
  case False
  let ?Ks = "find_clusters e currentStars"
  obtain cs1 ch1 st1 where
    f: "fold (reconcile_cluster e) ?Ks (constellations st, False, st) = (cs1, ch1, st1)"
    by (metis prod_cases3)
  have r: "reconcile e currentStars st = (if ch1 then st1\<lparr>constellations := cs1\<rparr> else st1)"
    using False f by (simp add: reconcile_def checkForConstellations_def)
  from reconcile_loop_unchanged_or_flag [of e ?Ks "(constellations st, False, st)"]
  show ?thesis
  proof
    assume "fold (reconcile_cluster e) ?Ks (constellations st, False, st)
        = (constellations st, False, st)"
    with f r have "reconcile e currentStars st = st" by simp
    then show ?thesis by simp
  next
    assume "fst (snd (fold (reconcile_cluster e) ?Ks (constellations st, False, st)))"
    with f have ch1 by simp
    with r have r1: "reconcile e currentStars st = st1\<lparr>constellations := cs1\<rparr>" by simp
    from i have "issued e st (constellations st)" by (simp add: issued_def)
    from reconcile_loop_settles [OF inj d this find_clusters_distinct find_clusters_nonempty f]
    have d1: "distinct (map cid cs1)" and s1: "\<forall>K \<in> set ?Ks. settled K cs1" by auto
    have "fold (reconcile_cluster e) ?Ks (cs1, False, st1\<lparr>constellations := cs1\<rparr>)
        = (cs1, False, st1\<lparr>constellations := cs1\<rparr>)"
      using s1 find_clusters_nonempty by (intro settled_loop_keeps [OF d1]) auto
    then have "reconcile e currentStars (st1\<lparr>constellations := cs1\<rparr>)
        = st1\<lparr>constellations := cs1\<rparr>"
      using False by (simp add: reconcile_def checkForConstellations_def)
    with r1 show ?thesis by simp
  qed
qed

section \<open>What a check leaves alone, and what it adds\<close>

lemma reconcile_cluster_frame:
  assumes "reconcile_cluster e K (cs, ch, st) = (cs', ch', st')"
  shows "stars st' = stars st \<and> constellations st' = constellations st \<and>
         focus (resources st') = focus (resources st) \<and>
         starlight (resources st) \<le> starlight (resources st') \<and>
         data (resources st) \<le> data (resources st') \<and>
         uuid_calls st \<le> uuid_calls st'"
proof (cases "filter (overlapping K) cs")
  case Nil
  with assms have "create_constellation e K (cs, ch, st) = (cs', ch', st')"
    by (simp add: reconcile_cluster_def)
  from create_constellation_result [OF this] show ?thesis by simp
next
  case (Cons p os)
  with assms have "st' = st"
    by (simp add: reconcile_cluster_def merge_constellations_eq split: if_splits)
  then show ?thesis by simp
qed

lemma reconcile_loop_frame:
  assumes "fold (reconcile_cluster e) Ks (cs, ch, st) = (cs', ch', st')"
  shows "stars st' = stars st \<and> constellations st' = constellations st \<and>
         focus (resources st') = focus (resources st) \<and>
         starlight (resources st) \<le> starlight (resources st') \<and>
         data (resources st) \<le> data (resources st') \<and>
         uuid_calls st \<le> uuid_calls st'"
  using assms
proof (induction Ks arbitrary: cs ch st)
  case Nil
  then show ?case by simp
next
  case (Cons K Ks)
  obtain cs1 ch1 st1 where s: "reconcile_cluster e K (cs, ch, st) = (cs1, ch1, st1)"
    by (metis prod_cases3)
  with Cons.prems have "fold (reconcile_cluster e) Ks (cs1, ch1, st1) = (cs', ch', st')"
    by simp
  from Cons.IH [OF this] reconcile_cluster_frame [OF s] show ?case by simp
qed

lemma checkForConstellations_frame:
  "stars (checkForConstellations e currentStars currentConstellations st) = stars st \<and>
   focus (resources (checkForConstellations e currentStars currentConstellations st))
     = focus (resources st) \<and>
   starlight (resources st)
     \<le> starlight (resources (checkForConstellations e currentStars currentConstellations st)) \<and>
   data (resources st)
     \<le> data (resources (checkForConstellations e currentStars currentConstellations st))"
proof (cases "length currentStars < 3")
  case True
  then show ?thesis by (simp add: checkForConstellations_def)
next
  case False
  obtain cs' ch' st' where
    f: "fold (reconcile_cluster e) (find_clusters e currentStars) (currentConstellations, False, st)
        = (cs', ch', st')"
    by (metis prod_cases3)
  from reconcile_loop_frame [OF f] False f show ?thesis
    by (simp add: checkForConstellations_def)
qed

lemma filter_map_filter_same:
  assumes "\<forall>c \<in> set cs. N c \<longrightarrow> Q c \<and> upd c = c" and "\<forall>c \<in> set cs. N (upd c) = N c"
  shows "filter N (map upd (filter Q cs)) = filter N cs"
  using assms by (induction cs) auto

lemma reconcile_cluster_rewards:
  fixes ids0 :: "string set"
  defines "N \<equiv> \<lambda>c. cid c \<notin> ids0"
  assumes inj: "inj (uuid_stream e)"
    and d: "distinct (map cid cs)"
    and old: "ids0 \<subseteq> uuid_stream e ` {..< uuid_calls st}"
    and apart: "\<forall>c \<in> set cs. N c \<longrightarrow> set (starIds c) \<inter> set K = {}"
    and r: "reconcile_cluster e K (cs, ch, st) = (cs', ch', st')"
  shows "\<exists>created. filter N cs' = filter N cs @ created \<and> (\<forall>c \<in> set created. starIds c = K) \<and>
           starlight (resources st') = starlight (resources st)
              + (\<Sum>c\<leftarrow>created. real (rewardStarlight (starIds c))) \<and>
           data (resources st') = data (resources st)
              + (\<Sum>c\<leftarrow>created. real (rewardData (starIds c)))"
  using d
proof (cases rule: reconcile_cluster_cases [where K = K and e = e and ch = ch and st = st])
  case create
  from create(2) r have "create_constellation e K (cs, ch, st) = (cs', ch', st')" by simp
  note c = create_constellation_result [OF this]
  let ?new = "\<lparr>cid = uuid_stream e (uuid_calls st),
               cname = fst (generateConstellationName e (length K) st),
               starIds = K, discoveredAt = clock e (now_calls st)\<rparr>"
  have cs': "cs' = cs @ [?new]" using c by simp
  have "N ?new"
  proof -
    have "uuid_stream e (uuid_calls st) \<notin> ids0"
    proof
      assume "uuid_stream e (uuid_calls st) \<in> ids0"
      with old obtain k where "k < uuid_calls st" "uuid_stream e (uuid_calls st) = uuid_stream e k"
        by auto
      with inj show False by (auto dest: injD)
    qed
    then show ?thesis by (simp add: N_def)
  qed
  then have "filter N cs' = filter N cs @ [?new]" by (simp add: cs')
  then show ?thesis using c by (intro exI [of _ "[?new]"]) simp
next
  case (keep p)
  with r show ?thesis by (intro exI [of _ "[]"]) simp
next
  case (merge p os M)
  from merge(5) r have cs': "cs' = map (\<lambda>c. if c = p then c\<lparr>starIds := M\<rparr> else c)
      (filter (\<lambda>c. c \<notin> set os) cs)" and st': "st' = st" by simp_all
  note o = overlaps_set [OF merge(1)]
  have notnew: "\<not> N q" if "q \<in> set (p # os)" for q
  proof
    assume "N q"
    moreover from that o have "q \<in> set cs" "overlapping K q" by auto
    ultimately show False using apart by (auto simp: overlapping_iff)
  qed
  have "filter N cs' = filter N cs" unfolding cs'
  proof (rule filter_map_filter_same)
    show "\<forall>c \<in> set cs. N c \<longrightarrow> c \<notin> set os \<and> (if c = p then c\<lparr>starIds := M\<rparr> else c) = c"
      using notnew by auto
    show "\<forall>c \<in> set cs. N (if c = p then c\<lparr>starIds := M\<rparr> else c) = N c"
      by (simp add: N_def)
  qed
  with st' show ?thesis by (intro exI [of _ "[]"]) simp
qed

lemma reconcile_loop_rewards:
  fixes ids0 :: "string set"
  defines "N \<equiv> \<lambda>c. cid c \<notin> ids0"
  assumes inj: "inj (uuid_stream e)"
    and d: "distinct (map cid cs)" and i: "issued e st cs"
    and old: "ids0 \<subseteq> uuid_stream e ` {..< uuid_calls st}"
    and Ks: "distinct (concat Ks)"
    and apart: "\<forall>c \<in> set cs. N c \<longrightarrow> (\<forall>K \<in> set Ks. set (starIds c) \<inter> set K = {})"
    and r: "fold (reconcile_cluster e) Ks (cs, ch, st) = (cs', ch', st')"
  shows "\<exists>created. filter N cs' = filter N cs @ created \<and>
           starlight (resources st') = starlight (resources st)
              + (\<Sum>c\<leftarrow>created. real (rewardStarlight (starIds c))) \<and>
           data (resources st') = data (resources st)
              + (\<Sum>c\<leftarrow>created. real (rewardData (starIds c)))"
  using d i old Ks apart r
proof (induction Ks arbitrary: cs ch st)
  case Nil
  then show ?case by (intro exI [of _ "[]"]) simp
next
  case (Cons K Ks)
  obtain cs1 ch1 st1 where s: "reconcile_cluster e K (cs, ch, st) = (cs1, ch1, st1)"
    by (metis prod_cases3)
  note ids = reconcile_cluster_ids [OF inj Cons.prems(1,2) s]
  note fr = reconcile_cluster_frame [OF s]
  have a1: "\<forall>c \<in> set cs. N c \<longrightarrow> set (starIds c) \<inter> set K = {}"
    using Cons.prems(5) by simp
  from reconcile_cluster_rewards [OF inj Cons.prems(1,3) a1 [unfolded N_def] s, folded N_def]
  obtain created1 where c1: "filter N cs1 = filter N cs @ created1"
    "\<forall>c \<in> set created1. starIds c = K"
    "starlight (resources st1) = starlight (resources st)
       + (\<Sum>c\<leftarrow>created1. real (rewardStarlight (starIds c)))"
    "data (resources st1) = data (resources st)
       + (\<Sum>c\<leftarrow>created1. real (rewardData (starIds c)))"
    by blast
  from Cons.prems(6) s have f: "fold (reconcile_cluster e) Ks (cs1, ch1, st1) = (cs', ch', st')"
    by simp
  have old1: "ids0 \<subseteq> uuid_stream e ` {..< uuid_calls st1}"
  proof
    fix x assume "x \<in> ids0"
    with Cons.prems(3) obtain k where "x = uuid_stream e k" "k < uuid_calls st" by auto
    with fr show "x \<in> uuid_stream e ` {..< uuid_calls st1}" by auto
  qed
  have dk: "distinct (concat Ks)" and kk: "\<forall>L \<in> set Ks. set K \<inter> set L = {}"
    using Cons.prems(4) by auto
  have apart1: "\<forall>c \<in> set cs1. N c \<longrightarrow> (\<forall>L \<in> set Ks. set (starIds c) \<inter> set L = {})"
  proof (intro ballI impI)
    fix c L assume c: "c \<in> set cs1" "N c" and L: "L \<in> set Ks"
    then have "c \<in> set (filter N cs1)" by simp
    then have "c \<in> set (filter N cs) \<or> c \<in> set created1" unfolding c1(1) by auto
    then show "set (starIds c) \<inter> set L = {}"
    proof
      assume "c \<in> set (filter N cs)"
      with Cons.prems(5) L show ?thesis by auto
    next
      assume "c \<in> set created1"
      with c1(2) kk L show ?thesis by auto
    qed
  qed
  from Cons.IH [OF _ _ old1 dk apart1 f] ids
  obtain created2 where c2: "filter N cs' = filter N cs1 @ created2"
    "starlight (resources st') = starlight (resources st1)
       + (\<Sum>c\<leftarrow>created2. real (rewardStarlight (starIds c)))"
    "data (resources st') = data (resources st1)
       + (\<Sum>c\<leftarrow>created2. real (rewardData (starIds c)))"
    by blast
  show ?case
    using c1 c2 by (intro exI [of _ "created1 @ created2"]) simp
qed

lemma reconcile_constellations:
  assumes "\<not> length currentStars < 3"
    and "fold (reconcile_cluster e) (find_clusters e currentStars) (constellations st, False, st)
         = (cs', ch', st')"
  shows "constellations (reconcile e currentStars st) = cs'"
    and "resources (reconcile e currentStars st) = resources st'"
proof -
  have r: "reconcile e currentStars st = (if ch' then st'\<lparr>constellations := cs'\<rparr> else st')"
    using assms by (simp add: reconcile_def checkForConstellations_def)
  then show "resources (reconcile e currentStars st) = resources st'" by simp
  show "constellations (reconcile e currentStars st) = cs'"
  proof (cases ch')
    case True
    with r show ?thesis by simp
  next
    case False
    with reconcile_loop_unchanged_or_flag
      [of e "find_clusters e currentStars" "(constellations st, False, st)"] assms(2)
    have "cs' = constellations st" "st' = st" by auto
    with r False show ?thesis by simp
  qed
qed

text \<open>
  Claim C10. A check never touches the list of bodies, never touches the focus, and
  never lowers starlight or data. When identities are unique and \<open>uuidv4\<close> never repeats
  itself, what starlight and data gain is exactly the creation reward, \<open>50 + 10 \<times> size\<close>
  and \<open>20 + 5 \<times> size\<close>, summed once over the constellations of the resulting list whose
  identity was not in the list before.
\<close>

theorem check_only_adds_creation_rewards:
  "stars (checkForConstellations e currentStars currentConstellations st) = stars st \<and>
   focus (resources (checkForConstellations e currentStars currentConstellations st))
     = focus (resources st) \<and>
   starlight (resources st)
     \<le> starlight (resources (checkForConstellations e currentStars currentConstellations st)) \<and>
   data (resources st)
     \<le> data (resources (checkForConstellations e currentStars currentConstellations st)) \<and>
   (inj (uuid_stream e) \<and> distinct (map cid (constellations st)) \<and>
    cid ` set (constellations st) \<subseteq> uuid_stream e ` {..< uuid_calls st} \<longrightarrow>
      starlight (resources (reconcile e currentStars st)) = starlight (resources st) +
        (\<Sum>c\<leftarrow>filter (\<lambda>c. cid c \<notin> cid ` set (constellations st))
                    (constellations (reconcile e currentStars st)).
           50 + 10 * real (length (starIds c))) \<and>
      data (resources (reconcile e currentStars st)) = data (resources st) +
        (\<Sum>c\<leftarrow>filter (\<lambda>c. cid c \<notin> cid ` set (constellations st))
                    (constellations (reconcile e currentStars st)).
           20 + 5 * real (length (starIds c))))"
proof (intro conjI impI)
  note fr = checkForConstellations_frame [of e currentStars currentConstellations st]
  from fr show "stars (checkForConstellations e currentStars currentConstellations st) = stars st"
    by simp
  from fr show "focus (resources (checkForConstellations e currentStars currentConstellations st))
     = focus (resources st)" by simp
  from fr show "starlight (resources st)
     \<le> starlight (resources (checkForConstellations e currentStars currentConstellations st))"
    by simp
  from fr show "data (resources st)
     \<le> data (resources (checkForConstellations e currentStars currentConstellations st))"
    by simp
next
  assume a: "inj (uuid_stream e) \<and> distinct (map cid (constellations st)) \<and>
    cid ` set (constellations st) \<subseteq> uuid_stream e ` {..< uuid_calls st}"
  let ?N = "\<lambda>c. cid c \<notin> cid ` set (constellations st)"
  have none: "filter ?N (constellations st) = []" by (simp add: filter_empty_conv)
  have both: "starlight (resources (reconcile e currentStars st)) = starlight (resources st) +
        (\<Sum>c\<leftarrow>filter ?N (constellations (reconcile e currentStars st)).
           50 + 10 * real (length (starIds c))) \<and>
      data (resources (reconcile e currentStars st)) = data (resources st) +
        (\<Sum>c\<leftarrow>filter ?N (constellations (reconcile e currentStars st)).
           20 + 5 * real (length (starIds c)))"
  proof (cases "length currentStars < 3")
    case True
    then have "reconcile e currentStars st = st"
      by (simp add: reconcile_def checkForConstellations_def)
    with none show ?thesis by simp
  next
    case False
    obtain cs' ch' st' where
      f: "fold (reconcile_cluster e) (find_clusters e currentStars) (constellations st, False, st)
          = (cs', ch', st')"
      by (metis prod_cases3)
    note rc = reconcile_constellations [OF False f]
    from a have i: "issued e st (constellations st)" by (simp add: issued_def)
    have "\<forall>c \<in> set (constellations st). ?N c \<longrightarrow>
        (\<forall>K \<in> set (find_clusters e currentStars). set (starIds c) \<inter> set K = {})"
      by simp
    from reconcile_loop_rewards [OF _ _ i _ find_clusters_distinct this f] a none
    obtain created where c: "filter ?N cs' = created"
      "starlight (resources st') = starlight (resources st)
         + (\<Sum>c\<leftarrow>created. real (rewardStarlight (starIds c)))"
      "data (resources st') = data (resources st)
         + (\<Sum>c\<leftarrow>created. real (rewardData (starIds c)))"
      by auto
    have "(\<Sum>c\<leftarrow>created. real (rewardStarlight (starIds c)))
        = (\<Sum>c\<leftarrow>created. 50 + 10 * real (length (starIds c)))"
      by (simp add: rewardStarlight_def mult.commute)
    moreover have "(\<Sum>c\<leftarrow>created. real (rewardData (starIds c)))
        = (\<Sum>c\<leftarrow>created. 20 + 5 * real (length (starIds c)))"
      by (simp add: rewardData_def mult.commute)
    ultimately show ?thesis using c rc by simp
  qed
  from both show "starlight (resources (reconcile e currentStars st)) = starlight (resources st) +
        (\<Sum>c\<leftarrow>filter ?N (constellations (reconcile e currentStars st)).
           50 + 10 * real (length (starIds c)))" by simp
  from both show "data (resources (reconcile e currentStars st)) = data (resources st) +
        (\<Sum>c\<leftarrow>filter ?N (constellations (reconcile e currentStars st)).
           20 + 5 * real (length (starIds c)))" by simp
qed

section \<open>Calls that are not serialised\<close>






section \<open>Two checks in a row, evaluated\<close>

lemma adjacency_two_groups:
  "build_adjacency offline_env two_groups =
     [(''A'', [''B'', ''C'']), (''B'', [''A'', ''C'']), (''C'', [''A'', ''B'']),
      (''D'', [''E'', ''F'']), (''E'', [''D'', ''F'']), (''F'', [''D'', ''E''])]"
  by (simp add: two_groups_def build_adjacency_def close_iff_squares double_sub_Ints adj_push_def
      adj_set_def body_id_body_at)

lemma clusters_two_groups: "find_clusters offline_env two_groups = [[''A'', ''C'', ''B''], [''D'', ''F'', ''E'']]"
  unfolding find_clusters_def adjacency_two_groups
  by (simp add: two_groups_def body_id_body_at adj_get_def)

lemma offline_name: "fst (generateConstellationName offline_env n st) = ''The Great Cross''"
  by (simp add: generateConstellationName_def fallback_name_def Math_random_def offline_env_def
      floor_scaled_def prefixes_def roots_def)

lemma after_scenario_A_state:
  "constellations after_scenario_A = [first_constellation]"
  "uuid_calls after_scenario_A = 2"
  "now_calls after_scenario_A = 2"
  "resources after_scenario_A = \<lparr>starlight = 80, data = 35, focus = 100\<rparr>"
proof -
  have l: "\<not> length scenario_A_and_far < 3" by (simp add: scenario_A_and_far_def)
  obtain cs ch st where r: "reconcile_cluster offline_env [''A'', ''C'', ''B'']
      ([], False, initial_state) = (cs, ch, st)"
    by (metis prod_cases3)
  then have "create_constellation offline_env [''A'', ''C'', ''B''] ([], False, initial_state)
      = (cs, ch, st)"
    by (simp add: reconcile_cluster_def)
  note c = create_constellation_result [OF this]
  have e: "after_scenario_A = st\<lparr>constellations := cs\<rparr>"
    using l r c by (simp add: after_scenario_A_def reconcile_def checkForConstellations_def
        clusters_scenario_A_and_far initial_state_def)
  show "constellations after_scenario_A = [first_constellation]"
    unfolding e first_constellation_def using c
    by (simp add: offline_name, simp add: offline_env_def initial_state_def)
  show "uuid_calls after_scenario_A = 2"
    unfolding e using c by (simp add: initial_state_def)
  show "now_calls after_scenario_A = 2"
    unfolding e using c by (simp add: initial_state_def)
  show "resources after_scenario_A = \<lparr>starlight = 80, data = 35, focus = 100\<rparr>"
    unfolding e using c
    by (simp add: initial_state_def INITIAL_RESOURCES_def rewardStarlight_def rewardData_def)
qed

lemma after_two_groups:
  "constellations (reconcile offline_env two_groups after_scenario_A)
     = [first_constellation, second_constellation]"
proof -
  have l: "\<not> length two_groups < 3" by (simp add: two_groups_def)
  have k: "reconcile_cluster offline_env [''A'', ''C'', ''B'']
      ([first_constellation], False, after_scenario_A)
      = ([first_constellation], False, after_scenario_A)"
    by (simp add: reconcile_cluster_def merge_constellations_eq overlapping_iff
        first_constellation_def)
  obtain cs ch st where r: "reconcile_cluster offline_env [''D'', ''F'', ''E'']
      ([first_constellation], False, after_scenario_A) = (cs, ch, st)"
    by (metis prod_cases3)
  then have "create_constellation offline_env [''D'', ''F'', ''E'']
      ([first_constellation], False, after_scenario_A) = (cs, ch, st)"
    by (simp add: reconcile_cluster_def overlapping_iff first_constellation_def)
  note c = create_constellation_result [OF this]
  have "constellations (reconcile offline_env two_groups after_scenario_A) = cs"
    using l k r c by (simp add: reconcile_def checkForConstellations_def
        clusters_two_groups after_scenario_A_state(1))
  also have "cs = [first_constellation, second_constellation]"
    using c unfolding second_constellation_def
    by (simp add: offline_name after_scenario_A_state, simp add: offline_env_def numeral_2_eq_2)
  finally show ?thesis .
qed

lemma after_both:
  "constellations (reconcile_all offline_env [scenario_A_and_far, two_groups] initial_state)
     = [first_constellation, second_constellation]"
  using after_two_groups by (simp add: reconcile_all_def after_scenario_A_def)

theorem constellations_stay_disjoint_witness:
  "inj (uuid_stream offline_env) \<and> constellations initial_state = [] \<and>
   constellations (reconcile_all offline_env [scenario_A_and_far, two_groups] initial_state)
     = [first_constellation, second_constellation] \<and>
   first_constellation \<noteq> second_constellation \<and>
   set (starIds first_constellation) \<inter> set (starIds second_constellation) = {} \<and>
   3 \<le> card (set (starIds first_constellation)) \<and>
   3 \<le> card (set (starIds second_constellation)) \<and>
   distinct (map cid [first_constellation, second_constellation])"
proof -
  have e: "constellations initial_state = []" by (simp add: initial_state_def)
  have n: "first_constellation \<noteq> second_constellation"
    by (simp add: first_constellation_def second_constellation_def)
  note t = constellations_stay_disjoint [OF inj_offline_uuid e,
      of "[scenario_A_and_far, two_groups]", unfolded after_both]
  from t n have "set (starIds first_constellation) \<inter> set (starIds second_constellation) = {}"
    by simp
  moreover from t have "3 \<le> card (set (starIds first_constellation))"
    "3 \<le> card (set (starIds second_constellation))"
    "distinct (map cid [first_constellation, second_constellation])"
    by simp_all
  ultimately show ?thesis using inj_offline_uuid e n after_both by simp
qed

theorem reconciliation_is_idempotent_witness:
  "inj (uuid_stream offline_env) \<and> distinct (map cid (constellations after_scenario_A)) \<and>
   cid ` set (constellations after_scenario_A)
     \<subseteq> uuid_stream offline_env ` {..< uuid_calls after_scenario_A} \<and>
   constellations after_scenario_A = [first_constellation] \<and>
   constellations (reconcile offline_env two_groups after_scenario_A)
     = [first_constellation, second_constellation] \<and>
   reconcile offline_env two_groups (reconcile offline_env two_groups after_scenario_A)
     = reconcile offline_env two_groups after_scenario_A"
proof -
  have d: "distinct (map cid (constellations after_scenario_A))"
    by (simp add: after_scenario_A_state)
  have "uuid_stream offline_env 0 = ''u''" by (simp add: offline_env_def)
  then have "''u'' \<in> uuid_stream offline_env ` {..< 2}" by (metis imageI lessThan_iff zero_less_numeral)
  then have i: "cid ` set (constellations after_scenario_A)
     \<subseteq> uuid_stream offline_env ` {..< uuid_calls after_scenario_A}"
    by (simp add: after_scenario_A_state first_constellation_def)
  from reconciliation_is_idempotent [OF inj_offline_uuid d i, of two_groups]
  show ?thesis using inj_offline_uuid d i after_scenario_A_state(1) after_two_groups by simp
qed

theorem check_only_adds_creation_rewards_witness:
  "inj (uuid_stream offline_env) \<and> distinct (map cid (constellations after_scenario_A)) \<and>
   cid ` set (constellations after_scenario_A)
     \<subseteq> uuid_stream offline_env ` {..< uuid_calls after_scenario_A} \<and>
   stars (reconcile offline_env two_groups after_scenario_A) = stars after_scenario_A \<and>
   focus (resources (reconcile offline_env two_groups after_scenario_A)) = 100 \<and>
   filter (\<lambda>c. cid c \<notin> cid ` set (constellations after_scenario_A))
          (constellations (reconcile offline_env two_groups after_scenario_A))
     = [second_constellation] \<and>
   starlight (resources (reconcile offline_env two_groups after_scenario_A)) = 80 + 80 \<and>
   data (resources (reconcile offline_env two_groups after_scenario_A)) = 35 + 35"
proof -
  have d: "distinct (map cid (constellations after_scenario_A))"
    by (simp add: after_scenario_A_state)
  have "uuid_stream offline_env 0 = ''u''" by (simp add: offline_env_def)
  then have "''u'' \<in> uuid_stream offline_env ` {..< 2}" by (metis imageI lessThan_iff zero_less_numeral)
  then have i: "cid ` set (constellations after_scenario_A)
     \<subseteq> uuid_stream offline_env ` {..< uuid_calls after_scenario_A}"
    by (simp add: after_scenario_A_state first_constellation_def)
  have f: "filter (\<lambda>c. cid c \<notin> cid ` set (constellations after_scenario_A))
          (constellations (reconcile offline_env two_groups after_scenario_A))
     = [second_constellation]"
    by (simp add: after_two_groups after_scenario_A_state first_constellation_def
        second_constellation_def)
  note t = check_only_adds_creation_rewards [of offline_env two_groups
      "constellations after_scenario_A" after_scenario_A, folded reconcile_def]
  from t have "stars (reconcile offline_env two_groups after_scenario_A) = stars after_scenario_A"
    "focus (resources (reconcile offline_env two_groups after_scenario_A)) = 100"
    by (simp_all add: after_scenario_A_state)
  moreover from t inj_offline_uuid d i
  have "starlight (resources (reconcile offline_env two_groups after_scenario_A)) = 80 + 80"
    "data (resources (reconcile offline_env two_groups after_scenario_A)) = 35 + 35"
    unfolding f by (simp_all add: after_scenario_A_state second_constellation_def)
  ultimately show ?thesis using inj_offline_uuid d i f by simp
qed










end
